theory Spec2Isabelle
  imports Complex_Main "HOL-Library.Multiset" "HOL-Library.List_Lexorder"
begin

section \<open>Data model of \<open>vision_toolbox/utils.py\<close>\<close>

text \<open>
  NumPy arrays of floats are modelled over the reals. The annotated shapes of the source
  fix the row widths: \<open>VEC_2\<close>, \<open>VEC_3\<close> and \<open>VEC_4\<close> rows are tuples, a \<open>TP\<close> entry is
  a 4x4 matrix given by its four rows, an \<open>INTRINSIC\<close> entry a 3x3 matrix given by its
  three rows. The leading (batch) axis is a list.
\<close>

type_synonym vec2 = "real \<times> real"
type_synonym vec3 = "real \<times> real \<times> real"
type_synonym vec4 = "real \<times> real \<times> real \<times> real"
type_synonym mat33 = "vec3 \<times> vec3 \<times> vec3"
type_synonym mat44 = "vec4 \<times> vec4 \<times> vec4 \<times> vec4"

text \<open>The exceptions the modelled functions raise.\<close>

datatype error = ValueError | AssertionError | IndexError | LinAlgError

text \<open>
  Several functions accept one instance (rank one lower) or a batch with a leading axis,
  and dispatch on \<open>ndim\<close>.
\<close>

datatype 'a nd = Single 'a | Batch "'a list"

text \<open>\<open>pts: VEC_3 | VEC_4\<close>: the width is read from \<open>pts.shape[1]\<close>.\<close>

datatype pts = P3 "vec3 list" | P4 "vec4 list"

section \<open>Coordinate utilities and extrinsic application\<close>

text \<open>The module constant \<open>L2R\<close> (signed zeros are zeros over the reals) and \<open>np.eye(4)\<close>.\<close>

definition L2R :: mat44 where
  "L2R = ((0, 1, 0, 0), (1, 0, 0, 0), (0, 0, -1, 0), (0, 0, 0, 1))"

definition eye4 :: mat44 where
  "eye4 = ((1, 0, 0, 0), (0, 1, 0, 0), (0, 0, 1, 0), (0, 0, 0, 1))"

text \<open>\<open>Convert.To_homog\<close>: \<open>np.c_[obj, ones]\<close> appends a column of ones.\<close>

definition To_homog :: "vec3 list \<Rightarrow> vec4 list" where
  "To_homog obj = map (\<lambda>(x, y, z). (x, y, z, 1)) obj"

text \<open>
  \<open>np.einsum("bjk, nk -> bnk", _ex, _pts)\<close> with \<open>_ex\<close> of shape (B, 3, 4) and \<open>_pts\<close>
  of shape (N, 4): the output keeps \<open>b\<close>, \<open>n\<close> and \<open>k\<close> and sums over \<open>j\<close>, so
  \<open>out[b, n, k] = (\<Sum>j<3. _ex[b, j, k]) * _pts[n, k]\<close>.
\<close>

definition einsum_bjk_nk_bnk :: "(vec4 \<times> vec4 \<times> vec4) list \<Rightarrow> vec4 list \<Rightarrow> vec4 list list" where
  "einsum_bjk_nk_bnk ex ps =
     map (\<lambda>((a0, a1, a2, a3), (b0, b1, b2, b3), (c0, c1, c2, c3)).
            map (\<lambda>(p0, p1, p2, p3).
                   ((a0 + b0 + c0) * p0, (a1 + b1 + c1) * p1,
                    (a2 + b2 + c2) * p2, (a3 + b3 + c3) * p3)) ps) ex"

text \<open>
  \<open>Space_process.Apply_extrinsic\<close>. \<open>np.linalg.inv\<close> belongs to NumPy and is a
  parameter \<open>linalg_inv\<close> (it raises on a singular matrix). \<open>_ex[:, :3, :]\<close> keeps the
  first three rows of every transform.
\<close>

definition Apply_extrinsic ::
  "(mat44 list \<Rightarrow> error + mat44 list) \<Rightarrow> pts \<Rightarrow> mat44 list \<Rightarrow> bool \<Rightarrow> error + vec4 list list" where
  "Apply_extrinsic linalg_inv ps extrinsic apply_inv =
     (case (if apply_inv then linalg_inv extrinsic else Inr extrinsic) of
        Inl e \<Rightarrow> Inl e
      | Inr ex \<Rightarrow>
          (let ex3 = map (\<lambda>(r0, r1, r2, r3). (r0, r1, r2)) ex;
               hp = (case ps of P3 p \<Rightarrow> To_homog p | P4 p \<Rightarrow> p)
           in Inr (einsum_bjk_nk_bnk ex3 hp)))"

text \<open>
  The rigid transformation \<open>R p + t\<close> of a point by a 4x4 transform, as the specification
  words it (rotation block: the upper left 3x3; translation: the last column).
\<close>

definition rigid :: "mat44 \<Rightarrow> vec3 \<Rightarrow> vec3" where
  "rigid E p =
     (case (E, p) of
        (((r00, r01, r02, t0), (r10, r11, r12, t1), (r20, r21, r22, t2), _), (x, y, z)) \<Rightarrow>
          (r00 * x + r01 * y + r02 * z + t0,
           r10 * x + r11 * y + r12 * z + t1,
           r20 * x + r21 * y + r22 * z + t2))"

text \<open>Matrix product of two 4x4 matrices (\<open>@\<close>), row by row.\<close>

definition row_mul :: "vec4 \<Rightarrow> mat44 \<Rightarrow> vec4" where
  "row_mul r B =
     (case (r, B) of
        ((a0, a1, a2, a3), (b00, b01, b02, b03), (b10, b11, b12, b13),
         (b20, b21, b22, b23), (b30, b31, b32, b33)) \<Rightarrow>
          (a0 * b00 + a1 * b10 + a2 * b20 + a3 * b30,
           a0 * b01 + a1 * b11 + a2 * b21 + a3 * b31,
           a0 * b02 + a1 * b12 + a2 * b22 + a3 * b32,
           a0 * b03 + a1 * b13 + a2 * b23 + a3 * b33))"

definition matmul :: "mat44 \<Rightarrow> mat44 \<Rightarrow> mat44" where
  "matmul A B = (case A of (r0, r1, r2, r3) \<Rightarrow> (row_mul r0 B, row_mul r1 B, row_mul r2 B, row_mul r3 B))"

text \<open>
  \<open>Space_process.Hand_change\<close>. \<open>mode\<close> is \<open>Literal["L2R", "R2L"]\<close>. The argument has
  \<open>ndim == 2\<close> (points) or is a batch of transforms; the points branch returns
  \<open>[0, :, :3]\<close> of the application, the other branch \<open>_tp @ obj\<close>.
\<close>

datatype mode = L2R_mode | R2L_mode

datatype hand_obj = Points pts | Transforms "mat44 list"

datatype hand_result = Points_out "vec3 list" | Transforms_out "mat44 list"

definition Hand_change ::
  "(mat44 list \<Rightarrow> error + mat44 list) \<Rightarrow> hand_obj \<Rightarrow> mode \<Rightarrow> error + hand_result" where
  "Hand_change linalg_inv obj m =
     (if m \<noteq> L2R_mode then Inl AssertionError
      else
        (let tp = (if m = L2R_mode then L2R else eye4)
         in case obj of
              Points p \<Rightarrow>
                (let hp = (case p of P3 q \<Rightarrow> To_homog q | P4 q \<Rightarrow> q)
                 in case Apply_extrinsic linalg_inv (P4 hp) [tp] False of
                      Inl e \<Rightarrow> Inl e
                    | Inr r \<Rightarrow>
                        (case r of
                           [] \<Rightarrow> Inl IndexError
                         | r0 # _ \<Rightarrow> Inr (Points_out (map (\<lambda>(x, y, z, w). (x, y, z)) r0))))
            | Transforms ts \<Rightarrow> Inr (Transforms_out (map (matmul tp) ts))))"

section \<open>Intrinsic model\<close>

text \<open>
  \<open>np.round\<close> rounds to the nearest integer and sends a tie to the even neighbour.
\<close>

definition np_round :: "real \<Rightarrow> int" where
  "np_round x =
     (let f = \<lfloor>x\<rfloor>; r = x - of_int f
      in if r < 1 / 2 then f else if 1 / 2 < r then f + 1 else if even f then f else f + 1)"

text \<open>
  Machine integers. Arithmetic on \<open>int32\<close> and \<open>int64\<close> arrays wraps around. The cast of a
  rounded float to an integer type is the identity in range; out of range the C conversion
  is undefined, and NumPy on x86-64 yields the minimum of the type. Every theorem below that
  depends on a cast assumes the value in range.
\<close>

definition wrap32 :: "int \<Rightarrow> int" where
  "wrap32 i = (i + 2 ^ 31) mod 2 ^ 32 - 2 ^ 31"


definition astype_int32 :: "int \<Rightarrow> int" where
  "astype_int32 i = (if - (2 ^ 31) \<le> i \<and> i < 2 ^ 31 then i else - (2 ^ 31))"


text \<open>
  \<open>np.arctan2(y, x)\<close> over the reals: the angle of the point (x, y) in (-pi, pi].
\<close>

definition arctan2 :: "real \<Rightarrow> real \<Rightarrow> real" where
  "arctan2 y x =
     (if 0 < x then arctan (y / x)
      else if x < 0 \<and> 0 \<le> y then arctan (y / x) + pi
      else if x < 0 then arctan (y / x) - pi
      else if 0 < y then pi / 2
      else if y < 0 then - pi / 2
      else 0)"

text \<open>
  Element-wise binary operations broadcast their operands: shapes (2,) and (N, 2) combine
  to (N, 2); (N, 2) and (M, 2) combine when N = M or when one of them is 1, and raise
  \<open>ValueError\<close> otherwise. A float division by zero gives \<open>inf\<close> or \<open>nan\<close> in NumPy and
  0 in HOL: the theorems below assume every divisor nonzero.
\<close>

definition ew :: "('a \<Rightarrow> 'b \<Rightarrow> 'c) \<Rightarrow> 'a \<times> 'a \<Rightarrow> 'b \<times> 'b \<Rightarrow> 'c \<times> 'c" where
  "ew f a b = (f (fst a) (fst b), f (snd a) (snd b))"

definition bcast ::
  "('a \<Rightarrow> 'b \<Rightarrow> 'c) \<Rightarrow> ('a \<times> 'a) nd \<Rightarrow> ('b \<times> 'b) nd \<Rightarrow> error + ('c \<times> 'c) nd" where
  "bcast f a b =
     (case (a, b) of
        (Single x, Single y) \<Rightarrow> Inr (Single (ew f x y))
      | (Single x, Batch ys) \<Rightarrow> Inr (Batch (map (\<lambda>y. ew f x y) ys))
      | (Batch xs, Single y) \<Rightarrow> Inr (Batch (map (\<lambda>x. ew f x y) xs))
      | (Batch xs, Batch ys) \<Rightarrow>
          (if length xs = length ys then Inr (Batch (map2 (ew f) xs ys))
           else (case (xs, ys) of
                   ([x], _) \<Rightarrow> Inr (Batch (map (\<lambda>y. ew f x y) ys))
                 | (_, [y]) \<Rightarrow> Inr (Batch (map (\<lambda>x. ew f x y) xs))
                 | _ \<Rightarrow> Inl ValueError)))"

text \<open>The sizes are integer arrays (\<open>IMGs_SIZE\<close>); arithmetic with floats promotes them.
  The source's parameter \<open>size\<close> is written \<open>sz\<close>.\<close>

definition Get_focal_length_from :: "vec2 nd \<Rightarrow> (int \<times> int) nd \<Rightarrow> error + vec2 nd" where
  "Get_focal_length_from fov sz = bcast (\<lambda>s v. of_int s / (2 * tan (v / 2))) sz fov"


definition Get_fov_from :: "(int \<times> int) nd \<Rightarrow> vec2 nd \<Rightarrow> error + vec2 nd" where
  "Get_fov_from sz f_length = bcast (\<lambda>s f. 2 * arctan2 (of_int s / 2) f) sz f_length"

definition Get_pp_from :: "vec2 nd \<Rightarrow> (int \<times> int) nd \<Rightarrow> error + vec2 nd" where
  "Get_pp_from rate sz = bcast (\<lambda>s r. of_int s * r) sz rate"

definition Get_pp_rate_from :: "vec2 nd \<Rightarrow> (int \<times> int) nd \<Rightarrow> error + vec2 nd" where
  "Get_pp_rate_from pp sz = bcast (\<lambda>p s. p / of_int s) pp sz"

text \<open>
  \<open>ndim\<close> and \<open>shape[0]\<close> of an array of vectors of width \<open>n\<close>: a single vector has
  shape (n,), a batch of N vectors has shape (N, n).
\<close>

definition ndim_vec :: "'a nd \<Rightarrow> nat" where
  "ndim_vec a = (case a of Single _ \<Rightarrow> 1 | Batch _ \<Rightarrow> 2)"

definition shape0 :: "nat \<Rightarrow> 'a nd \<Rightarrow> nat" where
  "shape0 n a = (case a of Single _ \<Rightarrow> n | Batch xs \<Rightarrow> length xs)"

text \<open>\<open>np.eye(3)\<close> with the entries (0,0), (1,1), (0,2), (1,2) overwritten.\<close>

definition pack_intrinsic :: "vec2 \<Rightarrow> vec2 \<Rightarrow> mat33" where
  "pack_intrinsic f p = ((fst f, 0, fst p), (0, snd f, snd p), (0, 0, 1))"

text \<open>
  \<open>Camera_Process.Compose_intrinsic\<close>. After the guard both operands have the same rank;
  \<open>np.concatenate\<close> itself raises \<open>ValueError\<close> on operands of different rank.
\<close>

definition Compose_intrinsic :: "vec2 nd \<Rightarrow> vec2 nd \<Rightarrow> error + mat33 nd" where
  "Compose_intrinsic f_length pp =
     (if ndim_vec f_length \<noteq> ndim_vec pp \<or> shape0 2 f_length \<noteq> shape0 2 pp
      then Inl ValueError
      else (case (f_length, pp) of
              (Batch fs, Batch ps) \<Rightarrow> Inr (Batch (map2 pack_intrinsic fs ps))
            | (Single f, Single p) \<Rightarrow> Inr (Single (pack_intrinsic f p))
            | _ \<Rightarrow> Inl ValueError))"

definition unpack_intrinsic :: "mat33 \<Rightarrow> vec2 \<times> vec2" where
  "unpack_intrinsic m =
     (case m of ((m00, m01, m02), (m10, m11, m12), _) \<Rightarrow> ((m00, m11), (m02, m12)))"

text \<open>\<open>Camera_Process.Extract_intrinsic\<close>: \<open>intrinsic.ndim >= 3\<close> is the batch.\<close>

definition Extract_intrinsic :: "mat33 nd \<Rightarrow> vec2 nd \<times> vec2 nd" where
  "Extract_intrinsic intrinsic =
     (case intrinsic of
        Batch ms \<Rightarrow> (Batch (map (fst \<circ> unpack_intrinsic) ms), Batch (map (snd \<circ> unpack_intrinsic) ms))
      | Single m \<Rightarrow> (Single (fst (unpack_intrinsic m)), Single (snd (unpack_intrinsic m))))"

text \<open>Sequencing of computations that may raise.\<close>

definition bind_err :: "error + 'a \<Rightarrow> ('a \<Rightarrow> error + 'b) \<Rightarrow> error + 'b" where
  "bind_err r k = (case r of Inl e \<Rightarrow> Inl e | Inr v \<Rightarrow> k v)"

text \<open>\<open>Camera_Process.Adjust_intrinsic\<close>.\<close>

definition Adjust_intrinsic ::
  "mat33 nd \<Rightarrow> (int \<times> int) nd \<Rightarrow> (int \<times> int) nd \<Rightarrow> error + mat33 nd" where
  "Adjust_intrinsic intrinsic sz new_size =
     (let (ff, pp) = Extract_intrinsic intrinsic
      in bind_err (Get_fov_from sz ff) (\<lambda>fov.
         bind_err (Get_pp_rate_from pp sz) (\<lambda>pp_rate.
         bind_err (Get_focal_length_from fov new_size) (\<lambda>f_new.
         bind_err (Get_pp_from pp_rate new_size) (\<lambda>pp_new.
         Compose_intrinsic f_new pp_new)))))"

section \<open>Extrinsic model\<close>

text \<open>
  \<open>Space_process.Compose_extrinsic\<close>. \<open>Convert.Rotation.Q_to_M\<close> wraps the rotation
  library (an external collaborator) and is the parameter \<open>Q_to_M\<close>, applied to each
  quaternion. \<open>np.eye(4)\<close> receives the rotation in its upper left block and the
  translation in its last column.
\<close>

definition pack_extrinsic :: "mat33 \<Rightarrow> vec3 \<Rightarrow> mat44" where
  "pack_extrinsic m t =
     (case (m, t) of
        (((m00, m01, m02), (m10, m11, m12), (m20, m21, m22)), (t0, t1, t2)) \<Rightarrow>
          ((m00, m01, m02, t0), (m10, m11, m12, t1), (m20, m21, m22, t2), (0, 0, 0, 1)))"

definition Compose_extrinsic :: "(vec4 \<Rightarrow> mat33) \<Rightarrow> vec4 nd \<Rightarrow> vec3 nd \<Rightarrow> error + mat44 nd" where
  "Compose_extrinsic Q_to_M q tf =
     (if ndim_vec q \<noteq> ndim_vec tf \<or> (2 \<le> ndim_vec q \<and> shape0 4 q \<noteq> shape0 3 tf)
      then Inl ValueError
      else (case (q, tf) of
              (Batch qs, Batch ts) \<Rightarrow> Inr (Batch (map2 (\<lambda>a t. pack_extrinsic (Q_to_M a) t) qs ts))
            | (Single a, Single t) \<Rightarrow> Inr (Single (pack_extrinsic (Q_to_M a) t))
            | _ \<Rightarrow> Inl ValueError))"

text \<open>
  The two operands of a composition correspond one to one when they have the same rank
  and, for batches, the same number of rows.
\<close>

definition shapes_agree :: "'a nd \<Rightarrow> 'b nd \<Rightarrow> bool" where
  "shapes_agree a b =
     (case (a, b) of
        (Single _, Single _) \<Rightarrow> True
      | (Batch xs, Batch ys) \<Rightarrow> length xs = length ys
      | _ \<Rightarrow> False)"

section \<open>Point and pixel projector\<close>

text \<open>
  A depth map (\<open>IMG_1C\<close>) has shape (h, w, 1): the last axis has extent one by its type, so
  a pixel is identified with its only channel and the map is the list of its h rows of w
  depths; \<open>depth_map[_mask, 0]\<close> then selects pixels and \<open>[:, :, None]\<close> changes
  nothing. A pixel mask is a list of rows of booleans (the variable is written \<open>msk\<close>).

  \<open>a[mask]\<close> with a boolean mask keeps the entries at the true positions, in row-major
  order: \<open>select\<close> on one axis, \<open>bool_select\<close> on the two axes of a grid.
\<close>

definition select :: "bool list \<Rightarrow> 'a list \<Rightarrow> 'a list" where
  "select msk a = map snd (filter fst (zip msk a))"

definition bool_select :: "bool list list \<Rightarrow> 'a list list \<Rightarrow> 'a list" where
  "bool_select msk a = select (concat msk) (concat a)"

text \<open>
  \<open>Camera_Process.Get_pts_from\<close>. The default mask is all true. A mask whose shape is not
  the shape of the map raises \<open>IndexError\<close>. \<open>np.meshgrid(arange(h), arange(w),
  indexing='ij')\<close> gives \<open>_yy[y, x] = y\<close> and \<open>_xx[y, x] = x\<close>; \<open>np.c_\<close> stacks the three
  columns.
\<close>

definition Get_pts_from :: "real list list \<Rightarrow> bool list list option \<Rightarrow> error + vec3 list" where
  "Get_pts_from depth_map msk =
     (let h = length depth_map;
          w = (case depth_map of [] \<Rightarrow> 0 | r # _ \<Rightarrow> length r);
          m = (case msk of Some m \<Rightarrow> m | None \<Rightarrow> replicate h (replicate w True))
      in if map length m \<noteq> map length depth_map then Inl IndexError
         else
           (let d_map = bool_select m depth_map;
                yy = map (\<lambda>y. replicate w y) [0..<h];
                xx = replicate h [0..<w]
            in Inr (map (\<lambda>(x, y, d). (real x * d, real y * d, d))
                      (zip (bool_select m xx) (zip (bool_select m yy) d_map)))))"

text \<open>
  Floating-point values: a finite value is the real it denotes, and there are the two
  infinities (the reals have no NaN). The coordinates and depths of the points are taken as
  reals; the depth buffer of \<open>Get_depth_map_from\<close> is \<open>float32\<close>, and what is stored in it
  is narrowed.

  \<open>astype(np.float32)\<close> of a finite x: with e the binary exponent of x, that is the
  largest e in [-126, 127] with \<open>2 ^ e \<le> \<bar>x\<bar>\<close>, and -126 when there is none (the
  subnormal range), x is rounded to the nearest multiple of \<open>2 ^ (e - 23)\<close>, a tie to the
  even multiple; a result of magnitude \<open>2 ^ 128\<close> or more is an infinity. \<open>f32_exp_from n\<close>
  searches the exponents \<open>n - 126\<close> down to -125.
\<close>

datatype fp = Fin real | PInf | NInf

fun f32_exp_from :: "nat \<Rightarrow> real \<Rightarrow> int" where
  "f32_exp_from 0 x = - 126"
| "f32_exp_from (Suc n) x = (if 2 powi (int n - 125) \<le> x then int n - 125 else f32_exp_from n x)"

definition f32_exp :: "real \<Rightarrow> int" where
  "f32_exp x = f32_exp_from 253 \<bar>x\<bar>"

definition f32_round :: "real \<Rightarrow> real" where
  "f32_round x = (let q = 2 powi (f32_exp x - 23) in of_int (np_round (x / q)) * q)"

definition float32 :: "real \<Rightarrow> fp" where
  "float32 x =
     (let r = f32_round x
      in if 2 ^ 128 \<le> r then PInf else if r \<le> - (2 ^ 128) then NInf else Fin r)"

definition astype_float32 :: "fp \<Rightarrow> fp" where
  "astype_float32 a = (case a of Fin x \<Rightarrow> float32 x | PInf \<Rightarrow> PInf | NInf \<Rightarrow> NInf)"

text \<open>
  \<open>np.minimum.at(a, indices, b)\<close> performs \<open>a[i] = minimum(a[i], b)\<close> for each pair in
  turn, unbuffered: \<open>fmin\<close> is the minimum of a cell of the buffer and an operand, and the
  result is narrowed to the \<open>float32\<close> of the buffer when it is stored. The buffer starts at
  \<open>np.inf\<close>. An index in [-n, 0) counts from the end; any other index outside [0, n) raises
  \<open>IndexError\<close>.
\<close>

definition fmin :: "fp \<Rightarrow> real \<Rightarrow> fp" where
  "fmin a b = (case a of Fin x \<Rightarrow> Fin (min x b) | PInf \<Rightarrow> Fin b | NInf \<Rightarrow> NInf)"

definition norm_index :: "nat \<Rightarrow> int \<Rightarrow> nat option" where
  "norm_index n i =
     (if 0 \<le> i \<and> i < int n then Some (nat i)
      else if - int n \<le> i \<and> i < 0 then Some (nat (i + int n))
      else None)"

definition at_step :: "int \<times> real \<Rightarrow> error + fp list \<Rightarrow> error + fp list" where
  "at_step p s =
     (case s of
        Inl e \<Rightarrow> Inl e
      | Inr a \<Rightarrow>
          (case norm_index (length a) (fst p) of
             None \<Rightarrow> Inl IndexError
           | Some k \<Rightarrow> Inr (a[k := astype_float32 (fmin (a ! k) (snd p))])))"

definition minimum_at :: "fp list \<Rightarrow> int list \<Rightarrow> real list \<Rightarrow> error + fp list" where
  "minimum_at a idx b = fold at_step (zip idx b) (Inr a)"

text \<open>\<open>np.nan_to_num(_, nan=0.0, posinf=0.0, neginf=0.0)\<close>.\<close>

definition nan_to_num :: "fp \<Rightarrow> real" where
  "nan_to_num d = (case d of Fin x \<Rightarrow> x | PInf \<Rightarrow> 0 | NInf \<Rightarrow> 0)"

definition reshape :: "nat \<Rightarrow> nat \<Rightarrow> 'a list \<Rightarrow> 'a list list" where
  "reshape h w xs = map (\<lambda>r. take w (drop (r * w) xs)) [0..<h]"

text \<open>
  \<open>Camera_Process.Get_depth_map_from\<close>, for a size \<open>(w, h)\<close> of natural numbers. The
  boolean-mask selection copies, so the division is not seen by the caller. The pixel
  indices are \<open>int32\<close>; the buffer \<open>_d_flat\<close> is \<open>float32\<close>, filled with \<open>np.inf\<close>, and the
  returned map holds its values.
\<close>

definition Get_depth_map_from :: "vec3 list \<Rightarrow> nat \<times> nat \<Rightarrow> error + real list list" where
  "Get_depth_map_from pts depth_map_size =
     (let (w, h) = depth_map_size;
          vis_pts = map (\<lambda>(x, y, z). (x / z, y / z, z)) (filter (\<lambda>(x, y, z). 0 < z) pts);
          u = map (\<lambda>(x, y, z). np_round x) vis_pts;
          v = map (\<lambda>(x, y, z). np_round y) vis_pts;
          msk = map2 (\<lambda>u v. 0 \<le> u \<and> u < int w \<and> 0 \<le> v \<and> v < int h) u v;
          u' = map astype_int32 (select msk u);
          v' = map astype_int32 (select msk v);
          d_flat = replicate (h * w) PInf;
          idx = map2 (\<lambda>v u. wrap32 (wrap32 (v * int w) + u)) v' u'
      in bind_err (minimum_at d_flat idx (select msk (map (\<lambda>(x, y, z). z) vis_pts)))
           (\<lambda>d. Inr (reshape h w (map ((\<lambda>x. if x < 0 then 0 else x) \<circ> nan_to_num) d))))"

text \<open>
  The words of the specification for forward projection: a point lands on pixel (u, v)
  when its depth is positive and its coordinates, divided by the depth and rounded, are
  (u, v); the depths of the points landing on a pixel contribute to it.
\<close>

definition lands :: "nat \<Rightarrow> nat \<Rightarrow> vec3 \<Rightarrow> bool" where
  "lands u v p =
     (case p of (x, y, z) \<Rightarrow> 0 < z \<and> np_round (x / z) = int u \<and> np_round (y / z) = int v)"

definition contributing :: "vec3 list \<Rightarrow> nat \<Rightarrow> nat \<Rightarrow> real list" where
  "contributing pts u v = map (\<lambda>(x, y, z). z) (filter (lands u v) pts)"

text \<open>A grid of h rows and w columns, and a size that fits the \<open>int32\<close> index arithmetic.\<close>

definition rect :: "nat \<Rightarrow> nat \<Rightarrow> 'a list list \<Rightarrow> bool" where
  "rect h w a = (length a = h \<and> list_all (\<lambda>r. length r = w) a)"

definition fits32 :: "nat \<Rightarrow> nat \<Rightarrow> bool" where
  "fits32 w h = (w < 2 ^ 31 \<and> h < 2 ^ 31 \<and> w * h < 2 ^ 31)"

text \<open>
  The same computation seen point by point: a point is visible when it passes both
  filters of \<open>Get_depth_map_from\<close>, \<open>flat_index\<close> is the index the source computes for
  it, and \<open>clamp_depth\<close> is the normalisation of one accumulator cell.
\<close>

definition visible :: "nat \<Rightarrow> nat \<Rightarrow> vec3 \<Rightarrow> bool" where
  "visible w h p =
     (case p of (x, y, z) \<Rightarrow>
        0 < z \<and> 0 \<le> np_round (x / z) \<and> np_round (x / z) < int w
        \<and> 0 \<le> np_round (y / z) \<and> np_round (y / z) < int h)"

definition flat_index :: "nat \<Rightarrow> vec3 \<Rightarrow> int" where
  "flat_index w p =
     (case p of (x, y, z) \<Rightarrow>
        wrap32 (wrap32 (astype_int32 (np_round (y / z)) * int w) + astype_int32 (np_round (x / z))))"

definition clamp_depth :: "fp \<Rightarrow> real" where
  "clamp_depth = (\<lambda>x. if x < 0 then 0 else x) \<circ> nan_to_num"

text \<open>
  The words of the specification for back-projection: in the row-major scan of a map of
  width w, the pixel of flat index i is x = i mod w, y = i div w, and its point is
  (x * d, y * d, d) for its depth d.
\<close>

definition pixel_point :: "real list list \<Rightarrow> nat \<Rightarrow> nat \<Rightarrow> vec3" where
  "pixel_point D w i =
     (real (i mod w) * D ! (i div w) ! (i mod w), real (i div w) * D ! (i div w) ! (i mod w),
      D ! (i div w) ! (i mod w))"

section \<open>Quantized duplicate removal\<close>






section \<open>Theorems\<close>

text \<open>
  C10. Whatever the argument, \<open>Hand_change\<close> called with the unsupported mode \<open>R2L\<close> stops
  at its assertion: the result is the \<open>AssertionError\<close>, never a value.
\<close>

theorem Hand_change_R2L_fails:
  "Hand_change linalg_inv obj R2L_mode = Inl AssertionError"
  by (simp add: Hand_change_def)

text \<open>
  C1. At the identity rotation with translation (5, 0, 0) and the single point (1, 2, 3),
  \<open>Apply_extrinsic\<close> returns (1, 2, 3, 5): each component of the point is scaled by a
  column sum of the transform. The rigid transformation of that point is (6, 2, 3).
\<close>

theorem Apply_extrinsic_not_rigid:
  "Apply_extrinsic linalg_inv (P3 [(1, 2, 3)])
     [((1, 0, 0, 5), (0, 1, 0, 0), (0, 0, 1, 0), (0, 0, 0, 1))] False
     = Inr [[(1, 2, 3, 5)]]
   \<and> rigid ((1, 0, 0, 5), (0, 1, 0, 0), (0, 0, 1, 0), (0, 0, 0, 1)) (1, 2, 3) = (6, 2, 3)"
  by (simp add: Apply_extrinsic_def einsum_bjk_nk_bnk_def To_homog_def rigid_def)

subsection \<open>Rounding and the intrinsic model\<close>

lemma np_round_of_int: "np_round (of_int n) = n"
  by (simp add: np_round_def)

lemma np_round_bound: "\<bar>of_int (np_round x) - x\<bar> \<le> 1 / 2"
  unfolding np_round_def Let_def by (auto; linarith)

lemma tan_arctan2_pos: "0 < x \<Longrightarrow> tan (arctan2 y x) = y / x"
  by (simp add: arctan2_def tan_arctan)

lemma Adjust_intrinsic_single:
  assumes "0 < fx" "0 < fy" "0 < a" "0 < b"
  shows "Adjust_intrinsic (Single ((fx, s, px), (t, fy, py), r)) (Single (a, b)) (Single (c, d))
     = Inr (Single ((of_int c * fx / of_int a, 0, of_int c * (px / of_int a)),
                    (0, of_int d * fy / of_int b, of_int d * (py / of_int b)),
                    (0, 0, 1)))"
  using assms
  by (simp add: Adjust_intrinsic_def Extract_intrinsic_def unpack_intrinsic_def bind_err_def
      Get_fov_from_def Get_pp_rate_from_def Get_focal_length_from_def Get_pp_from_def
      bcast_def ew_def Compose_intrinsic_def ndim_vec_def shape0_def pack_intrinsic_def
      tan_arctan2_pos)

text \<open>
  C5. For a single intrinsic matrix with positive focal lengths and three sizes with
  positive components, adjusting from the first size to the second and then from the
  second to the third gives exactly the adjustment from the first to the third (over the
  reals the tolerance is zero). The intermediate matrix has the field of view and the
  principal-point rate of the original.
\<close>

theorem Adjust_intrinsic_transitive:
  assumes "0 < fx" "0 < fy"
    and "0 < a1" "0 < b1" "0 < a2" "0 < b2" "0 < a3" "0 < b3"
  shows "\<exists>J K. Adjust_intrinsic (Single ((fx, s, px), (t, fy, py), r)) (Single (a1, b1)) (Single (a2, b2)) = Inr (Single J)
     \<and> Adjust_intrinsic (Single ((fx, s, px), (t, fy, py), r)) (Single (a1, b1)) (Single (a3, b3)) = Inr (Single K)
     \<and> Adjust_intrinsic (Single J) (Single (a2, b2)) (Single (a3, b3)) = Inr (Single K)
     \<and> Get_fov_from (Single (a2, b2)) (fst (Extract_intrinsic (Single J)))
         = Get_fov_from (Single (a1, b1)) (Single (fx, fy))
     \<and> Get_pp_rate_from (snd (Extract_intrinsic (Single J))) (Single (a2, b2))
         = Get_pp_rate_from (Single (px, py)) (Single (a1, b1))"
proof -
  let ?I = "((fx, s, px), (t, fy, py), r)"
  let ?J = "((of_int a2 * fx / of_int a1, 0, of_int a2 * (px / of_int a1)),
             (0, of_int b2 * fy / of_int b1, of_int b2 * (py / of_int b1)), (0, 0, 1::real))"
  let ?K = "((of_int a3 * fx / of_int a1, 0, of_int a3 * (px / of_int a1)),
             (0, of_int b3 * fy / of_int b1, of_int b3 * (py / of_int b1)), (0, 0, 1::real))"
  have J: "Adjust_intrinsic (Single ?I) (Single (a1, b1)) (Single (a2, b2)) = Inr (Single ?J)"
    using assms by (simp add: Adjust_intrinsic_single)
  have K: "Adjust_intrinsic (Single ?I) (Single (a1, b1)) (Single (a3, b3)) = Inr (Single ?K)"
    using assms by (simp add: Adjust_intrinsic_single)
  have pos: "0 < of_int a2 * fx / of_int a1" "0 < of_int b2 * fy / of_int b1"
    using assms by simp_all
  have JK: "Adjust_intrinsic (Single ?J) (Single (a2, b2)) (Single (a3, b3)) = Inr (Single ?K)"
    using assms pos by (simp add: Adjust_intrinsic_single)
  have fov: "Get_fov_from (Single (a2, b2)) (fst (Extract_intrinsic (Single ?J)))
         = Get_fov_from (Single (a1, b1)) (Single (fx, fy))"
    using assms pos
    by (simp add: Get_fov_from_def Extract_intrinsic_def unpack_intrinsic_def bcast_def ew_def arctan2_def)
  have rate: "Get_pp_rate_from (snd (Extract_intrinsic (Single ?J))) (Single (a2, b2))
         = Get_pp_rate_from (Single (px, py)) (Single (a1, b1))"
    using assms
    by (simp add: Get_pp_rate_from_def Extract_intrinsic_def unpack_intrinsic_def bcast_def ew_def)
  show ?thesis using J K JK fov rate by blast
qed

theorem Adjust_intrinsic_transitive_witness:
  "\<exists>J K. Adjust_intrinsic (Single ((500, 0, 320), (0, 400, 240), (0, 0, 1))) (Single (640, 480)) (Single (320, 240)) = Inr (Single J)
     \<and> Adjust_intrinsic (Single ((500, 0, 320), (0, 400, 240), (0, 0, 1))) (Single (640, 480)) (Single (160, 120)) = Inr (Single K)
     \<and> Adjust_intrinsic (Single J) (Single (320, 240)) (Single (160, 120)) = Inr (Single K)
     \<and> Get_fov_from (Single (320, 240)) (fst (Extract_intrinsic (Single J)))
         = Get_fov_from (Single (640, 480)) (Single (500, 400))
     \<and> Get_pp_rate_from (snd (Extract_intrinsic (Single J))) (Single (320, 240))
         = Get_pp_rate_from (Single (320, 240)) (Single (640, 480))"
  using Adjust_intrinsic_transitive [where fx = 500 and fy = 400 and ?a1.0 = 640 and ?b1.0 = 480
      and ?a2.0 = 320 and ?b2.0 = 240 and ?a3.0 = 160 and ?b3.0 = 120 and s = 0 and t = 0
      and px = 320 and py = 240 and r = "(0, 0, 1)"]
  by simp








subsection \<open>Shape guards of the compositions\<close>

text \<open>
  C9. \<open>Compose_intrinsic\<close> and \<open>Compose_extrinsic\<close> raise \<open>ValueError\<close> (the shape
  mismatch) when their two operands differ in rank or in batch size, a batch of one row
  included, and return a value when rank and batch size agree.
\<close>

theorem Compose_shape_guard:
  "(\<not> shapes_agree f pp \<longrightarrow> Compose_intrinsic f pp = Inl ValueError)
   \<and> (shapes_agree f pp \<longrightarrow> (\<exists>m. Compose_intrinsic f pp = Inr m))
   \<and> (\<not> shapes_agree q tf \<longrightarrow> Compose_extrinsic Q_to_M q tf = Inl ValueError)
   \<and> (shapes_agree q tf \<longrightarrow> (\<exists>m. Compose_extrinsic Q_to_M q tf = Inr m))"
  by (cases f; cases pp; cases q; cases tf)
     (simp_all add: shapes_agree_def Compose_intrinsic_def Compose_extrinsic_def ndim_vec_def shape0_def)

theorem Compose_shape_guard_witness:
  "Compose_intrinsic (Batch [(500, 500)]) (Batch [(320, 240), (160, 120)]) = Inl ValueError
   \<and> Compose_extrinsic (\<lambda>q. ((1, 0, 0), (0, 1, 0), (0, 0, 1))) (Single (1, 0, 0, 0)) (Batch [(0, 0, 0)]) = Inl ValueError
   \<and> (\<exists>m. Compose_intrinsic (Single (500, 500)) (Single (320, 240)) = Inr m)
   \<and> (\<exists>m. Compose_extrinsic (\<lambda>q. ((1, 0, 0), (0, 1, 0), (0, 0, 1)))
             (Batch [(1, 0, 0, 0), (0, 1, 0, 0)]) (Batch [(0, 0, 0), (1, 2, 3)]) = Inr m)"
  using Compose_shape_guard [where f = "Batch [(500, 500)]" and pp = "Batch [(320, 240), (160, 120)]"
      and q = "Single (1, 0, 0, 0)" and tf = "Batch [(0, 0, 0)]"
      and Q_to_M = "\<lambda>q. ((1, 0, 0), (0, 1, 0), (0, 0, 1))"]
    Compose_shape_guard [where f = "Single (500, 500)" and pp = "Single (320, 240)"
      and q = "Batch [(1, 0, 0, 0), (0, 1, 0, 0)]" and tf = "Batch [(0, 0, 0), (1, 2, 3)]"
      and Q_to_M = "\<lambda>q. ((1, 0, 0), (0, 1, 0), (0, 0, 1))"]
  by (simp add: shapes_agree_def)

subsection \<open>Duplicate removal\<close>











subsection \<open>Narrowing to \<open>float32\<close>\<close>

text \<open>
  Rounding to \<open>float32\<close> is odd, monotone and idempotent; so narrowing the buffer after
  every minimum is narrowing the minimum once.
\<close>

lemma np_round_mono:
  assumes "x \<le> y"
  shows "np_round x \<le> np_round y"
proof (rule ccontr)
  assume "\<not> np_round x \<le> np_round y"
  then have "np_round y + 1 \<le> np_round x" by simp
  then have a: "real_of_int (np_round y) + 1 \<le> of_int (np_round x)" by linarith
  have b: "of_int (np_round x) \<le> x + 1 / 2" using np_round_bound [of x] by linarith
  have c: "y - 1 / 2 \<le> of_int (np_round y)" using np_round_bound [of y] by linarith
  have "y \<le> x" using a b c by linarith
  then have "x = y" using assms by simp
  then show False using \<open>\<not> np_round x \<le> np_round y\<close> by simp
qed

lemma np_round_eqI:
  assumes "\<bar>of_int n - x\<bar> < 1 / 2 \<or> (\<bar>of_int n - x\<bar> = 1 / 2 \<and> even n)"
  shows "np_round x = n"
proof -
  let ?f = "\<lfloor>x\<rfloor>"
  have f: "of_int ?f \<le> x" "x < of_int ?f + 1" by linarith+
  from assms show ?thesis
  proof
    assume s: "\<bar>of_int n - x\<bar> < 1 / 2"
    show ?thesis
    proof (cases "x - of_int ?f < 1 / 2")
      case True
      then have "n = ?f" using s f by linarith
      then show ?thesis using True by (simp add: np_round_def)
    next
      case False
      then have "n = ?f + 1" using s f by linarith
      moreover have "1 / 2 < x - of_int ?f" using s f False \<open>n = ?f + 1\<close> by auto
      ultimately show ?thesis by (simp add: np_round_def)
    qed
  next
    assume t: "\<bar>of_int n - x\<bar> = 1 / 2 \<and> even n"
    then have h: "x - of_int ?f = 1 / 2"
    proof -
      have "of_int n - x = 1 / 2 \<or> x - of_int n = 1 / 2" using t by linarith
      then show ?thesis
      proof
        assume "of_int n - x = 1 / 2"
        then have "x = of_int (n - 1) + 1 / 2" by simp
        then have "?f = n - 1" by linarith
        then show ?thesis using \<open>of_int n - x = 1 / 2\<close> by simp
      next
        assume "x - of_int n = 1 / 2"
        then have "x = of_int n + 1 / 2" by simp
        then have "?f = n" by linarith
        then show ?thesis using \<open>x - of_int n = 1 / 2\<close> by simp
      qed
    qed
    have "n = ?f \<or> n = ?f + 1" using t h by linarith
    then show ?thesis using t h by (auto simp: np_round_def)
  qed
qed

lemma np_round_spec:
  "\<bar>of_int (np_round x) - x\<bar> < 1 / 2 \<or> (\<bar>of_int (np_round x) - x\<bar> = 1 / 2 \<and> even (np_round x))"
  unfolding np_round_def Let_def by (auto; linarith)

lemma np_round_neg: "np_round (- x) = - np_round x"
proof (rule np_round_eqI)
  have "\<bar>of_int (- np_round x) - (- x)\<bar> = \<bar>of_int (np_round x) - x\<bar>" by simp
  then show "\<bar>of_int (- np_round x) - - x\<bar> < 1 / 2
      \<or> (\<bar>of_int (- np_round x) - - x\<bar> = 1 / 2 \<and> even (- np_round x))"
    using np_round_spec [of x] by simp
qed


lemma f32_exp_from_ge: "- 126 \<le> f32_exp_from n x"
  by (induction n) auto

lemma f32_exp_from_le: "f32_exp_from n x \<le> int n - 126"
  by (induction n) auto

lemma f32_exp_from_lower: "- 126 < f32_exp_from n x \<Longrightarrow> 2 powi (f32_exp_from n x) \<le> x"
  by (induction n) (auto split: if_splits)

lemma f32_exp_from_upper: "f32_exp_from n x < int n - 126 \<Longrightarrow> x < 2 powi (f32_exp_from n x + 1)"
proof (induction n)
  case 0
  then show ?case by simp
next
  case (Suc n)
  show ?case
  proof (cases "2 powi (int n - 125) \<le> x")
    case True
    then show ?thesis using Suc.prems by simp
  next
    case False
    note F = this
    show ?thesis
    proof (cases "f32_exp_from n x < int n - 126")
      case True
      then show ?thesis using Suc.IH F by simp
    next
      case False
      then have "f32_exp_from n x = int n - 126" using f32_exp_from_le [of n x] by simp
      then have eq: "f32_exp_from n x + 1 = int n - 125" by simp
      have s: "f32_exp_from (Suc n) x = f32_exp_from n x" using F by simp
      have "x < 2 powi (int n - 125)" using F by simp
      then show ?thesis unfolding s eq .
    qed
  qed
qed

lemma f32_exp_from_mono: "x \<le> y \<Longrightarrow> f32_exp_from n x \<le> f32_exp_from n y"
proof (induction n)
  case 0
  then show ?case by simp
next
  case (Suc n)
  show ?case
  proof (cases "2 powi (int n - 125) \<le> x")
    case True
    then have "2 powi (int n - 125) \<le> y" using Suc.prems by simp
    then show ?thesis using True by simp
  next
    case False
    note F = this
    show ?thesis
    proof (cases "2 powi (int n - 125) \<le> y")
      case True
      have "f32_exp_from n x \<le> int n - 126" by (rule f32_exp_from_le)
      then show ?thesis using True F by simp
    next
      case False
      then show ?thesis using F Suc.IH [OF Suc.prems] by simp
    qed
  qed
qed

lemma f32_exp_ge: "- 126 \<le> f32_exp x"
  unfolding f32_exp_def by (rule f32_exp_from_ge)

lemma f32_exp_le: "f32_exp x \<le> 127"
  unfolding f32_exp_def using f32_exp_from_le [of 253 "\<bar>x\<bar>"] by simp

lemma f32_exp_lower: "- 126 < f32_exp x \<Longrightarrow> 2 powi (f32_exp x) \<le> \<bar>x\<bar>"
  unfolding f32_exp_def by (rule f32_exp_from_lower)

lemma f32_exp_upper: "f32_exp x < 127 \<Longrightarrow> \<bar>x\<bar> < 2 powi (f32_exp x + 1)"
  unfolding f32_exp_def using f32_exp_from_upper [of 253 "\<bar>x\<bar>"] by simp

lemma f32_exp_mono: "\<bar>x\<bar> \<le> \<bar>y\<bar> \<Longrightarrow> f32_exp x \<le> f32_exp y"
  unfolding f32_exp_def by (rule f32_exp_from_mono)

lemma f32_exp_neg: "f32_exp (- x) = f32_exp x"
  by (simp add: f32_exp_def)

lemma f32_exp_eqI:
  assumes "- 126 \<le> e" "e \<le> 127" "e = - 126 \<or> 2 powi e \<le> \<bar>x\<bar>" "e = 127 \<or> \<bar>x\<bar> < 2 powi (e + 1)"
  shows "f32_exp x = e"
proof (rule antisym)
  show "f32_exp x \<le> e"
  proof (rule ccontr)
    assume "\<not> f32_exp x \<le> e"
    then have g: "e + 1 \<le> f32_exp x" by simp
    then have "e \<noteq> 127" using f32_exp_le [of x] by simp
    then have u: "\<bar>x\<bar> < 2 powi (e + 1)" using assms(4) by simp
    have "- 126 < f32_exp x" using g assms(1) by simp
    then have "2 powi (f32_exp x) \<le> \<bar>x\<bar>" by (rule f32_exp_lower)
    moreover have "(2::real) powi (e + 1) \<le> 2 powi (f32_exp x)"
      using g by (intro power_int_increasing) simp_all
    ultimately show False using u by simp
  qed
  show "e \<le> f32_exp x"
  proof (rule ccontr)
    assume "\<not> e \<le> f32_exp x"
    then have g: "f32_exp x + 1 \<le> e" by simp
    then have "e \<noteq> - 126" using f32_exp_ge [of x] by simp
    then have l: "2 powi e \<le> \<bar>x\<bar>" using assms(3) by simp
    have "f32_exp x < 127" using g assms(2) by simp
    then have "\<bar>x\<bar> < 2 powi (f32_exp x + 1)" by (rule f32_exp_upper)
    moreover have "(2::real) powi (f32_exp x + 1) \<le> 2 powi e"
      using g by (intro power_int_increasing) simp_all
    ultimately show False using l by simp
  qed
qed

lemma powi_split24: "(2::real) powi (e + 1) = 2 ^ 24 * 2 powi (e - 23)"
proof -
  have "e + 1 = 24 + (e - 23)" by simp
  then have "(2::real) powi (e + 1) = 2 powi (24 + (e - 23))" by (rule arg_cong)
  also have "\<dots> = 2 powi 24 * 2 powi (e - 23)" by (rule power_int_add) simp
  finally show ?thesis by simp
qed

lemma powi_split23: "(2::real) powi e = 2 ^ 23 * 2 powi (e - 23)"
proof -
  have "e = 23 + (e - 23)" by simp
  then have "(2::real) powi e = 2 powi (23 + (e - 23))" by (rule arg_cong)
  also have "\<dots> = 2 powi 23 * 2 powi (e - 23)" by (rule power_int_add) simp
  finally show ?thesis by simp
qed

lemma f32_round_neg: "f32_round (- x) = - f32_round x"
  by (simp add: f32_round_def Let_def f32_exp_neg np_round_neg)

lemma f32_round_0: "f32_round 0 = 0"
  using np_round_of_int [of 0] by (simp add: f32_round_def Let_def)

lemma f32_round_nonneg:
  assumes "0 \<le> x"
  shows "0 \<le> f32_round x"
proof -
  have "0 \<le> x / 2 powi (f32_exp x - 23)" using assms by simp
  then have "np_round 0 \<le> np_round (x / 2 powi (f32_exp x - 23))" by (rule np_round_mono)
  then have "0 \<le> np_round (x / 2 powi (f32_exp x - 23))" using np_round_of_int [of 0] by simp
  then show ?thesis by (simp add: f32_round_def Let_def)
qed

lemma f32_round_upper:
  assumes "0 \<le> x" "f32_exp x < 127"
  shows "f32_round x \<le> 2 powi (f32_exp x + 1)"
proof -
  let ?q = "(2::real) powi (f32_exp x - 23)"
  have q: "0 < ?q" by simp
  have "x < 2 powi (f32_exp x + 1)" using f32_exp_upper [OF assms(2)] assms(1) by simp
  then have "x \<le> 2 ^ 24 * ?q" by (simp add: powi_split24)
  then have "x / ?q \<le> 2 ^ 24" using q by (simp add: pos_divide_le_eq)
  then have "x / ?q \<le> of_int (2 ^ 24)" by simp
  then have "np_round (x / ?q) \<le> np_round (of_int (2 ^ 24))" by (rule np_round_mono)
  then have "np_round (x / ?q) \<le> 2 ^ 24" by (simp only: np_round_of_int)
  then have "real_of_int (np_round (x / ?q)) \<le> 2 ^ 24" by simp
  then have "of_int (np_round (x / ?q)) * ?q \<le> 2 ^ 24 * ?q" using q by (intro mult_right_mono) simp_all
  then show ?thesis by (simp add: f32_round_def Let_def powi_split24)
qed

lemma f32_round_lower:
  assumes "0 \<le> x" "- 126 < f32_exp x"
  shows "2 powi (f32_exp x) \<le> f32_round x"
proof -
  let ?q = "(2::real) powi (f32_exp x - 23)"
  have q: "0 < ?q" by simp
  have "2 powi (f32_exp x) \<le> x" using f32_exp_lower [OF assms(2)] assms(1) by simp
  then have "2 ^ 23 * ?q \<le> x" using powi_split23 [of "f32_exp x"] by simp
  then have "2 ^ 23 \<le> x / ?q" using q by (simp add: pos_le_divide_eq)
  then have "of_int (2 ^ 23) \<le> x / ?q" by simp
  then have "np_round (of_int (2 ^ 23)) \<le> np_round (x / ?q)" by (rule np_round_mono)
  then have "2 ^ 23 \<le> np_round (x / ?q)" by (simp only: np_round_of_int)
  then have "2 ^ 23 \<le> real_of_int (np_round (x / ?q))" by simp
  then have "2 ^ 23 * ?q \<le> of_int (np_round (x / ?q)) * ?q" using q by (intro mult_right_mono) simp_all
  then show ?thesis using powi_split23 [of "f32_exp x"] by (simp add: f32_round_def Let_def)
qed

lemma f32_round_mono_nonneg:
  assumes "0 \<le> x" "x \<le> y"
  shows "f32_round x \<le> f32_round y"
proof -
  have y: "0 \<le> y" using assms by simp
  have le: "f32_exp x \<le> f32_exp y" using assms by (intro f32_exp_mono) simp
  show ?thesis
  proof (cases "f32_exp x = f32_exp y")
    case True
    let ?q = "(2::real) powi (f32_exp y - 23)"
    have q: "0 < ?q" by simp
    have "x / ?q \<le> y / ?q" using assms(2) q by (simp add: divide_right_mono)
    then have "np_round (x / ?q) \<le> np_round (y / ?q)" by (rule np_round_mono)
    then have "real_of_int (np_round (x / ?q)) \<le> of_int (np_round (y / ?q))" by linarith
    then have "of_int (np_round (x / ?q)) * ?q \<le> of_int (np_round (y / ?q)) * ?q"
      using q by (intro mult_right_mono) simp_all
    then show ?thesis by (simp add: f32_round_def Let_def True)
  next
    case False
    then have lt: "f32_exp x + 1 \<le> f32_exp y" using le by simp
    have "f32_exp x < 127" using lt f32_exp_le [of y] by simp
    then have "f32_round x \<le> 2 powi (f32_exp x + 1)" using assms(1) by (intro f32_round_upper)
    also have "\<dots> \<le> 2 powi (f32_exp y)" using lt by (intro power_int_increasing) simp_all
    also have "\<dots> \<le> f32_round y"
    proof (rule f32_round_lower [OF y])
      show "- 126 < f32_exp y" using lt f32_exp_ge [of x] by simp
    qed
    finally show ?thesis .
  qed
qed

lemma f32_round_mono:
  assumes "x \<le> y"
  shows "f32_round x \<le> f32_round y"
proof (cases "0 \<le> x")
  case True
  then show ?thesis using assms by (rule f32_round_mono_nonneg)
next
  case False
  note neg = this
  show ?thesis
  proof (cases "0 \<le> y")
    case True
    have "0 \<le> f32_round (- x)" using neg by (intro f32_round_nonneg) simp
    then have "f32_round x \<le> 0" by (simp add: f32_round_neg)
    also have "0 \<le> f32_round y" using True by (rule f32_round_nonneg)
    finally show ?thesis .
  next
    case False
    then have "f32_round (- y) \<le> f32_round (- x)" using assms by (intro f32_round_mono_nonneg) simp_all
    then show ?thesis by (simp add: f32_round_neg)
  qed
qed

lemma f32_round_idem_nonneg:
  assumes "0 \<le> x"
  shows "f32_round (f32_round x) = f32_round x"
proof -
  define e where "e = f32_exp x"
  define m where "m = np_round (x / 2 powi (e - 23))"
  define r where "r = f32_round x"
  define e' where "e' = f32_exp r"
  have r: "r = of_int m * 2 powi (e - 23)" by (simp add: r_def m_def e_def f32_round_def Let_def)
  have r0: "0 \<le> r" unfolding r_def using assms by (rule f32_round_nonneg)
  have "\<exists>k::int. r / 2 powi (e' - 23) = of_int k"
  proof (cases "e' \<le> e")
    case True
    have "(2::real) powi (e - 23) = 2 powi ((e - e') + (e' - 23))" by simp
    also have "\<dots> = 2 powi (e - e') * 2 powi (e' - 23)" by (rule power_int_add) simp
    also have "(2::real) powi (e - e') = 2 ^ nat (e - e')" using True by (simp add: power_int_def)
    finally have "r / 2 powi (e' - 23) = of_int (m * 2 ^ nat (e - e'))" by (simp add: r)
    then show ?thesis by blast
  next
    case False
    then have lt: "e + 1 \<le> e'" by simp
    have "e' \<le> 127" unfolding e'_def by (rule f32_exp_le)
    then have "f32_exp x < 127" using lt by (simp add: e_def)
    then have up: "r \<le> 2 powi (e + 1)" unfolding r_def e_def using assms by (intro f32_round_upper)
    have "- 126 < e'" using lt f32_exp_ge [of x] by (simp add: e_def)
    then have "2 powi e' \<le> \<bar>r\<bar>" unfolding e'_def by (rule f32_exp_lower)
    then have lo: "2 powi e' \<le> r" using r0 by simp
    have inc: "(2::real) powi (e + 1) \<le> 2 powi e'" using lt by (intro power_int_increasing) simp_all
    have "e' \<le> e + 1"
    proof (rule ccontr)
      assume "\<not> e' \<le> e + 1"
      then have "(2::real) powi (e + 1) < 2 powi e'" by (intro power_int_strict_increasing) simp_all
      then show False using up lo by simp
    qed
    then have e': "e' = e + 1" using lt by simp
    have "r = 2 powi e'" using up lo inc by (simp add: e')
    then have "r / 2 powi (e' - 23) = of_int (2 ^ 23)" using powi_split23 [of e'] by simp
    then show ?thesis by blast
  qed
  then obtain k :: int where k: "r / 2 powi (e' - 23) = of_int k" by blast
  have "f32_round r = of_int (np_round (r / 2 powi (e' - 23))) * 2 powi (e' - 23)"
    by (simp add: f32_round_def Let_def e'_def)
  also have "\<dots> = of_int k * 2 powi (e' - 23)" by (simp only: k np_round_of_int)
  also have "\<dots> = r / 2 powi (e' - 23) * 2 powi (e' - 23)" by (simp only: k)
  also have "\<dots> = r" by simp
  finally show ?thesis by (simp add: r_def)
qed

lemma f32_round_idem: "f32_round (f32_round x) = f32_round x"
proof (cases "0 \<le> x")
  case True
  then show ?thesis by (rule f32_round_idem_nonneg)
next
  case False
  then have "f32_round (f32_round (- x)) = f32_round (- x)" by (intro f32_round_idem_nonneg) simp
  then show ?thesis by (simp add: f32_round_neg)
qed

lemma astype_float32_fmin:
  "astype_float32 (fmin (astype_float32 c) y) = astype_float32 (fmin c y)"
proof (cases c)
  case (Fin m)
  define r where "r = f32_round m"
  have idem: "f32_round r = r" unfolding r_def by (rule f32_round_idem)
  consider (hi) "2 ^ 128 \<le> r" | (lo) "r \<le> - (2 ^ 128)" | (mid) "\<not> 2 ^ 128 \<le> r" "\<not> r \<le> - (2 ^ 128)"
    by blast
  then show ?thesis
  proof cases
    case hi
    then have m: "float32 m = PInf" by (simp add: float32_def Let_def r_def)
    have "float32 y = float32 (min m y)"
    proof (cases "y \<le> m")
      case True
      then show ?thesis by (simp add: min_def)
    next
      case False
      then have "r \<le> f32_round y" unfolding r_def by (intro f32_round_mono) simp
      then have "float32 y = PInf" using hi by (simp add: float32_def Let_def)
      then show ?thesis using False m by (simp add: min_def)
    qed
    then show ?thesis using Fin m by (simp add: astype_float32_def fmin_def)
  next
    case lo
    then have m: "float32 m = NInf" by (simp add: float32_def Let_def r_def)
    have "f32_round (min m y) \<le> r" unfolding r_def by (intro f32_round_mono) simp
    then have "float32 (min m y) = NInf" using lo by (simp add: float32_def Let_def)
    then show ?thesis using Fin m by (simp add: astype_float32_def fmin_def)
  next
    case mid
    then have m: "float32 m = Fin r" by (simp add: float32_def Let_def r_def)
    have "f32_round (min r y) = f32_round (min m y)"
    proof (cases "y \<le> m")
      case True
      note ym = this
      show ?thesis
      proof (cases "y \<le> r")
        case True
        then show ?thesis using ym by (simp add: min_def)
      next
        case False
        have "f32_round y \<le> r" unfolding r_def using ym by (rule f32_round_mono)
        moreover have "f32_round r \<le> f32_round y" using False by (intro f32_round_mono) simp
        ultimately have "f32_round y = r" using idem by simp
        then show ?thesis using False ym idem by (simp add: min_def)
      qed
    next
      case False
      note ym = this
      show ?thesis
      proof (cases "r \<le> y")
        case True
        then show ?thesis using ym idem by (simp add: min_def r_def)
      next
        case False
        have "r \<le> f32_round y" unfolding r_def using ym by (intro f32_round_mono) simp
        moreover have "f32_round y \<le> f32_round r" using False by (intro f32_round_mono) simp
        ultimately have "f32_round y = r" using idem by simp
        then show ?thesis using False ym by (simp add: min_def r_def)
      qed
    qed
    then have "float32 (min r y) = float32 (min m y)" by (simp add: float32_def Let_def)
    then show ?thesis using Fin m by (simp add: astype_float32_def fmin_def)
  qed
next
  case PInf
  then show ?thesis by (simp add: astype_float32_def)
next
  case NInf
  then show ?thesis by (simp add: astype_float32_def)
qed

lemma f32_round_eval:
  assumes "- 126 \<le> e" "e \<le> 127" "e = - 126 \<or> 2 powi e \<le> \<bar>x\<bar>" "e = 127 \<or> \<bar>x\<bar> < 2 powi (e + 1)"
  shows "f32_round x = of_int (np_round (x / 2 powi (e - 23))) * 2 powi (e - 23)"
  using f32_exp_eqI [OF assms] by (simp add: f32_round_def Let_def)

lemma float32_values:
  "float32 0 = Fin 0" "float32 1 = Fin 1" "float32 2 = Fin 2" "float32 4 = Fin 4"
  "float32 5 = Fin 5" "float32 (5 / 2) = Fin (5 / 2)"
  using f32_round_0 f32_round_eval [of 0 1] f32_round_eval [of 1 2] f32_round_eval [of 2 4]
    f32_round_eval [of 2 5] f32_round_eval [of 1 "5 / 2"]
    np_round_of_int [of "2 ^ 23"] np_round_of_int [of "5 * 2 ^ 21"]
  by (simp_all add: float32_def Let_def)

lemma float32_tenth: "float32 (1 / 10) = Fin (13421773 / 134217728)"
  using f32_round_eval [of "- 4" "1 / 10"] by (simp add: float32_def Let_def np_round_def)


lemma float32_nonneg:
  assumes "0 \<le> x"
  shows "0 \<le> nan_to_num (float32 x)"
  using f32_round_nonneg [OF assms] by (simp add: float32_def Let_def nan_to_num_def)

subsection \<open>Forward projection\<close>

lemma select_map: "select (map Q xs) (map f xs) = map f (filter Q xs)"
  by (induction xs) (simp_all add: select_def)

lemma map2_same: "map2 f (map g xs) (map k xs) = map (\<lambda>x. f (g x) (k x)) xs"
  by (induction xs) simp_all

lemma zip_map_same: "zip (map g xs) (map k xs) = map (\<lambda>x. (g x, k x)) xs"
  by (induction xs) simp_all

lemma Get_depth_map_from_pointwise:
  "Get_depth_map_from pts (w, h) =
     bind_err (fold at_step (map (\<lambda>p. (flat_index w p, snd (snd p))) (filter (visible w h) pts))
                 (Inr (replicate (h * w) PInf)))
       (\<lambda>d. Inr (reshape h w (map clamp_depth d)))"
proof -
  let ?g = "\<lambda>(x, y, z). (x / z, y / z, z :: real)"
  let ?vis = "map ?g (filter (\<lambda>(x, y, z). 0 < z) pts)"
  let ?fu = "\<lambda>(x, y, z). np_round x" and ?fv = "\<lambda>(x :: real, y, z :: real). np_round y"
  let ?Q = "\<lambda>p. 0 \<le> ?fu p \<and> ?fu p < int w \<and> 0 \<le> ?fv p \<and> ?fv p < int h"
  let ?msk = "map2 (\<lambda>u v. 0 \<le> u \<and> u < int w \<and> 0 \<le> v \<and> v < int h) (map ?fu ?vis) (map ?fv ?vis)"
  have msk: "?msk = map ?Q ?vis" by (simp only: map2_same)
  let ?sel = "filter ?Q ?vis"
  have su: "select ?msk (map ?fu ?vis) = map ?fu ?sel"
    and sv: "select ?msk (map ?fv ?vis) = map ?fv ?sel"
    and sz: "select ?msk (map (\<lambda>(x, y, z). z) ?vis) = map (\<lambda>(x, y, z). z) ?sel"
    by (simp_all only: msk select_map)
  have vis: "visible w h = (\<lambda>p. (case p of (x, y, z) \<Rightarrow> 0 < z) \<and> ?Q (?g p))"
    by (rule ext) (simp add: visible_def case_prod_unfold)
  have sel: "?sel = map ?g (filter (visible w h) pts)"
    unfolding vis by (simp add: filter_map comp_def)
  have pairs: "zip (map2 (\<lambda>v u. wrap32 (wrap32 (v * int w) + u))
                      (map astype_int32 (map ?fv ?sel)) (map astype_int32 (map ?fu ?sel)))
                   (map (\<lambda>(x, y, z). z) ?sel)
      = map (\<lambda>p. (flat_index w p, snd (snd p))) (filter (visible w h) pts)"
    unfolding sel
    by (simp add: map2_same zip_map_same comp_def flat_index_def case_prod_unfold zip_map_map
        zip_same_conv_map)
  show ?thesis
    unfolding Get_depth_map_from_def Let_def prod.case minimum_at_def su sv sz pairs clamp_depth_def
    by (rule refl)
qed

lemma norm_index_less: "norm_index n i = Some k \<Longrightarrow> k < n"
  by (auto simp: norm_index_def split: if_splits)

lemma fmin_commute: "fmin (fmin a x) y = fmin (fmin a y) x"
  by (cases a) (auto simp: fmin_def)

lemma at_step_commute: "at_step p (at_step q s) = at_step q (at_step p s)"
proof (cases s)
  case (Inl e)
  then show ?thesis by (simp add: at_step_def)
next
  case (Inr a)
  show ?thesis
  proof (cases "norm_index (length a) (fst p)")
    case None
    then show ?thesis using Inr by (simp add: at_step_def split: option.splits)
  next
    case (Some k)
    note k = this
    show ?thesis
    proof (cases "norm_index (length a) (fst q)")
      case None
      then show ?thesis using Inr k by (simp add: at_step_def split: option.splits)
    next
      case (Some j)
      have lt: "k < length a" "j < length a"
        using k Some by (auto dest: norm_index_less)
      show ?thesis
      proof (cases "k = j")
        case True
        then show ?thesis using Inr k Some lt
          by (simp add: at_step_def astype_float32_fmin fmin_commute)
      next
        case False
        then show ?thesis using Inr k Some lt
          by (simp add: at_step_def list_update_swap)
      qed
    qed
  qed
qed

lemma fold_at_step_mset:
  assumes "mset xs = mset ys"
  shows "fold at_step xs = fold at_step ys"
proof (rule fold_multiset_equiv [OF _ assms])
  fix x y
  show "at_step x \<circ> at_step y = at_step y \<circ> at_step x"
    by (rule ext) (simp add: at_step_commute)
qed

text \<open>
  C8. Forward projection of a permutation of the points (the same multiset of rows) is
  the forward projection of the points, for every size; two points on the same pixel with
  depths 1 and 5 give depth 1 in either order.
\<close>

theorem Get_depth_map_from_permutation:
  "(mset pts' = mset pts \<longrightarrow> Get_depth_map_from pts' (w, h) = Get_depth_map_from pts (w, h))
   \<and> Get_depth_map_from [(0, 0, 1), (0, 0, 5)] (1, 1) = Inr [[1]]
   \<and> Get_depth_map_from [(0, 0, 5), (0, 0, 1)] (1, 1) = Inr [[1]]"
proof -
  have a: "Get_depth_map_from pts' (w, h) = Get_depth_map_from pts (w, h)" if "mset pts' = mset pts"
  proof -
    have "mset (filter (visible w h) pts') = mset (filter (visible w h) pts)"
      using that by (simp only: mset_filter)
    then have "mset (map (\<lambda>p. (flat_index w p, snd (snd p))) (filter (visible w h) pts'))
        = mset (map (\<lambda>p. (flat_index w p, snd (snd p))) (filter (visible w h) pts))"
      by (simp only: mset_map)
    then have "fold at_step (map (\<lambda>p. (flat_index w p, snd (snd p))) (filter (visible w h) pts'))
        = fold at_step (map (\<lambda>p. (flat_index w p, snd (snd p))) (filter (visible w h) pts))"
      by (rule fold_at_step_mset)
    then show ?thesis
      by (simp only: Get_depth_map_from_pointwise)
  qed
  have b: "Get_depth_map_from [(0, 0, 1), (0, 0, 5)] (1, 1) = Inr [[1]]"
    by (simp add: Get_depth_map_from_def select_def np_round_def astype_int32_def wrap32_def
        minimum_at_def at_step_def norm_index_def fmin_def astype_float32_def float32_values
        bind_err_def reshape_def nan_to_num_def)
  have c: "Get_depth_map_from [(0, 0, 5), (0, 0, 1)] (1, 1) = Inr [[1]]"
    by (simp add: Get_depth_map_from_def select_def np_round_def astype_int32_def wrap32_def
        minimum_at_def at_step_def norm_index_def fmin_def astype_float32_def float32_values
        bind_err_def reshape_def nan_to_num_def)
  show ?thesis using a b c by blast
qed

theorem Get_depth_map_from_permutation_witness:
  "mset [(2, 1, 1), (0, 0, 3), (4, 2, 2 :: real)] = mset [(0, 0, 3), (4, 2, 2), (2, 1, 1 :: real)]
   \<and> Get_depth_map_from [(2, 1, 1), (0, 0, 3), (4, 2, 2)] (3, 2)
       = Get_depth_map_from [(0, 0, 3), (4, 2, 2), (2, 1, 1)] (3, 2)"
  using Get_depth_map_from_permutation [where pts' = "[(2, 1, 1), (0, 0, 3), (4, 2, 2)]"
      and pts = "[(0, 0, 3), (4, 2, 2), (2, 1, 1)]" and w = 3 and h = 2]
  by simp


lemma norm_index_in_range: "0 \<le> i \<Longrightarrow> i < int n \<Longrightarrow> norm_index n i = Some (nat i)"
  by (simp add: norm_index_def)

lemma fold_at_step_in_range:
  assumes "\<forall>p\<in>set ps. 0 \<le> fst p \<and> fst p < int (length a)"
  shows "\<exists>a'. fold at_step ps (Inr a) = Inr a' \<and> length a' = length a
           \<and> (\<forall>k<length a. a' ! k = foldl (\<lambda>c b. astype_float32 (fmin c b)) (a ! k)
                                        (map snd (filter (\<lambda>p. fst p = int k) ps)))"
  using assms
proof (induction ps arbitrary: a)
  case Nil
  then show ?case by simp
next
  case (Cons p ps)
  let ?k = "nat (fst p)"
  let ?g = "\<lambda>c b. astype_float32 (fmin c b)"
  let ?a1 = "a[?k := ?g (a ! ?k) (snd p)]"
  have p: "0 \<le> fst p" "fst p < int (length a)" using Cons.prems by simp_all
  then have step: "at_step p (Inr a) = Inr ?a1"
    by (simp add: at_step_def norm_index_in_range)
  have "\<forall>q\<in>set ps. 0 \<le> fst q \<and> fst q < int (length ?a1)" using Cons.prems by simp
  from Cons.IH [OF this] obtain a' where a':
    "fold at_step ps (Inr ?a1) = Inr a'" "length a' = length ?a1"
    "\<forall>k<length ?a1. a' ! k = foldl ?g (?a1 ! k) (map snd (filter (\<lambda>q. fst q = int k) ps))"
    by blast
  have "a' ! k = foldl ?g (a ! k) (map snd (filter (\<lambda>q. fst q = int k) (p # ps)))"
    if k: "k < length a" for k
  proof (cases "fst p = int k")
    case True
    then have "?k = k" by simp
    then show ?thesis using a'(3) k True by simp
  next
    case False
    then have "?k \<noteq> k" using p by auto
    then show ?thesis using a'(3) k False by simp
  qed
  then show ?case using step a'(1,2) by simp
qed

lemma foldl_fmin_Fin: "foldl fmin (Fin x) bs = Fin (Min (insert x (set bs)))"
proof (induction bs arbitrary: x)
  case Nil
  then show ?case by simp
next
  case (Cons b bs)
  have "Min (insert (min x b) (set bs)) = Min (insert x (insert b (set bs)))"
  proof (cases "set bs = {}")
    case True
    then show ?thesis by (simp add: min_def)
  next
    case False
    then show ?thesis by (simp add: Min_insert min.assoc)
  qed
  then show ?case using Cons.IH [of "min x b"] by (simp add: fmin_def)
qed

lemma foldl_fmin_PInf: "foldl fmin PInf bs = (if bs = [] then PInf else Fin (Min (set bs)))"
  by (cases bs) (simp_all add: fmin_def foldl_fmin_Fin)

lemma foldl_astype_float32:
  "foldl (\<lambda>c b. astype_float32 (fmin c b)) (astype_float32 c) bs = astype_float32 (foldl fmin c bs)"
proof (induction bs arbitrary: c)
  case Nil
  then show ?case by simp
next
  case (Cons b bs)
  show ?case using Cons.IH [of "fmin c b"] by (simp add: astype_float32_fmin)
qed

lemma clamp_depth_foldl:
  assumes "\<forall>b\<in>set bs. 0 < b"
  shows "clamp_depth (foldl (\<lambda>c b. astype_float32 (fmin c b)) PInf bs)
           = (if bs = [] then 0 else nan_to_num (float32 (Min (set bs))))"
proof (cases "bs = []")
  case True
  then show ?thesis by (simp add: clamp_depth_def nan_to_num_def)
next
  case False
  then have "Min (set bs) \<in> set bs" by (intro Min_in) simp_all
  then have "0 < Min (set bs)" using assms by blast
  then have "0 \<le> Min (set bs)" by (rule less_imp_le)
  then have "0 \<le> nan_to_num (float32 (Min (set bs)))" by (rule float32_nonneg)
  then have n: "\<not> nan_to_num (float32 (Min (set bs))) < 0" by (simp only: not_less)
  have "foldl (\<lambda>c b. astype_float32 (fmin c b)) PInf bs
      = foldl (\<lambda>c b. astype_float32 (fmin c b)) (astype_float32 PInf) bs"
    by (simp add: astype_float32_def)
  also have "\<dots> = astype_float32 (foldl fmin PInf bs)" by (rule foldl_astype_float32)
  also have "\<dots> = float32 (Min (set bs))" using False by (simp add: foldl_fmin_PInf astype_float32_def)
  finally show ?thesis using False n by (simp add: clamp_depth_def)
qed

lemma wrap32_id: "0 \<le> i \<Longrightarrow> i < 2 ^ 31 \<Longrightarrow> wrap32 i = i"
  by (simp add: wrap32_def)

lemma astype_int32_id: "0 \<le> i \<Longrightarrow> i < 2 ^ 31 \<Longrightarrow> astype_int32 i = i"
  by (simp add: astype_int32_def)

lemma flat_bound:
  fixes u v w h :: int
  assumes "0 \<le> v" "v < h" "0 \<le> u" "u < w"
  shows "0 \<le> v * w" "v * w \<le> v * w + u" "v * w + u < h * w"
proof -
  have w: "0 < w" using assms by simp
  show "0 \<le> v * w" using assms(1) w by simp
  show "v * w \<le> v * w + u" using assms(3) by simp
  have "(v + 1) * w \<le> h * w" using assms(2) w by (intro mult_right_mono) simp_all
  then show "v * w + u < h * w" using assms(4) by (simp add: algebra_simps)
qed

lemma flat_unique:
  fixes u v u' v' w :: int
  assumes "0 \<le> u" "u < w" "0 \<le> u'" "u' < w" "v * w + u = v' * w + u'"
  shows "v = v' \<and> u = u'"
proof -
  have "v = (v * w + u) div w" using assms(1,2) by simp
  also have "\<dots> = (v' * w + u') div w" by (simp only: assms(5))
  also have "\<dots> = v'" using assms(3,4) by simp
  finally have "v = v'" .
  then show ?thesis using assms(5) by simp
qed

lemma reshape_rect: "length xs = h * w \<Longrightarrow> rect h w (reshape h w xs)"
proof -
  assume len: "length xs = h * w"
  have "length (take w (drop (r * w) xs)) = w" if "r < h" for r
  proof -
    have "Suc r * w \<le> h * w" using that by (intro mult_le_mono1) simp
    then show ?thesis using len by simp
  qed
  then show ?thesis by (simp add: rect_def reshape_def list_all_iff)
qed

lemma reshape_nth:
  assumes "length xs = h * w" "v < h" "u < w"
  shows "reshape h w xs ! v ! u = xs ! (v * w + u)"
proof -
  have "Suc v * w \<le> h * w" using assms(2) by (intro mult_le_mono1) simp
  then have "v * w + u < length xs" using assms(1,3) by simp
  then show ?thesis using assms by (simp add: reshape_def)
qed

lemma visible_index:
  assumes "fits32 w h" "visible w h p"
  shows "flat_index w p = np_round (fst (snd p) / snd (snd p)) * int w + np_round (fst p / snd (snd p))"
    and "0 \<le> flat_index w p" and "flat_index w p < int (h * w)"
proof -
  obtain x y z where p: "p = (x, y, z)" by (cases p)
  let ?u = "np_round (x / z)" and ?v = "np_round (y / z)"
  have r: "0 \<le> ?u" "?u < int w" "0 \<le> ?v" "?v < int h"
    using assms(2) by (simp_all add: visible_def p)
  have f: "int w < 2 ^ 31" "int h < 2 ^ 31" "int h * int w < 2 ^ 31"
    using assms(1) unfolding fits32_def
    by (metis of_nat_less_iff of_nat_numeral of_nat_power, metis of_nat_less_iff of_nat_numeral of_nat_power,
        metis mult.commute of_nat_less_iff of_nat_mult of_nat_numeral of_nat_power)
  have b: "0 \<le> ?v * int w" "?v * int w \<le> ?v * int w + ?u" "?v * int w + ?u < int h * int w"
    using flat_bound [OF r(3) r(4) r(1) r(2)] by simp_all
  have "astype_int32 ?u = ?u" "astype_int32 ?v = ?v"
    using r f by (simp_all add: astype_int32_id)
  moreover have "wrap32 (?v * int w) = ?v * int w" using b f by (intro wrap32_id) simp_all
  moreover have "wrap32 (?v * int w + ?u) = ?v * int w + ?u" using b f by (intro wrap32_id) simp_all
  ultimately have eq: "flat_index w p = ?v * int w + ?u" by (simp add: flat_index_def p)
  show "flat_index w p = np_round (fst (snd p) / snd (snd p)) * int w + np_round (fst p / snd (snd p))"
    using eq by (simp add: p)
  show "0 \<le> flat_index w p" using eq b r by simp
  show "flat_index w p < int (h * w)" using eq b by simp
qed

lemma lands_iff:
  assumes "fits32 w h" "u < w" "v < h"
  shows "lands u v p \<longleftrightarrow> visible w h p \<and> flat_index w p = int (v * w + u)"
proof
  assume l: "lands u v p"
  then have vis: "visible w h p" using assms(2,3) by (auto simp: lands_def visible_def)
  have "flat_index w p = int v * int w + int u"
    using visible_index(1) [OF assms(1) vis] l by (auto simp: lands_def)
  then show "visible w h p \<and> flat_index w p = int (v * w + u)" using vis by simp
next
  assume a: "visible w h p \<and> flat_index w p = int (v * w + u)"
  obtain x y z where p: "p = (x, y, z)" by (cases p)
  have r: "0 < z" "0 \<le> np_round (x / z)" "np_round (x / z) < int w"
    using a by (simp_all add: visible_def p)
  have "np_round (y / z) * int w + np_round (x / z) = int v * int w + int u"
    using visible_index(1) [OF assms(1), of p] a by (simp add: p)
  then have "np_round (y / z) = int v \<and> np_round (x / z) = int u"
    using r(2,3) assms(2) by (intro flat_unique [where w = "int w"]) simp_all
  then show "lands u v p" using r(1) by (simp add: lands_def p)
qed

lemma Get_depth_map_from_char:
  assumes "fits32 w h"
  shows "\<exists>D. Get_depth_map_from pts (w, h) = Inr D \<and> rect h w D
           \<and> (\<forall>v<h. \<forall>u<w. D ! v ! u =
                 (if contributing pts u v = [] then 0
                  else nan_to_num (float32 (Min (set (contributing pts u v))))))"
proof -
  let ?ps = "map (\<lambda>p. (flat_index w p, snd (snd p))) (filter (visible w h) pts)"
  let ?g = "\<lambda>c b. astype_float32 (fmin c b)"
  let ?a = "replicate (h * w) PInf"
  have "\<forall>q\<in>set ?ps. 0 \<le> fst q \<and> fst q < int (length ?a)"
    using visible_index(2,3) [OF assms] by auto
  from fold_at_step_in_range [OF this] obtain a' where a':
    "fold at_step ?ps (Inr ?a) = Inr a'" "length a' = h * w"
    "\<forall>k<h * w. a' ! k = foldl ?g PInf (map snd (filter (\<lambda>q. fst q = int k) ?ps))"
    by auto
  let ?D = "reshape h w (map clamp_depth a')"
  have D: "Get_depth_map_from pts (w, h) = Inr ?D"
    by (simp add: Get_depth_map_from_pointwise a'(1) bind_err_def)
  have R: "rect h w ?D" using a'(2) by (intro reshape_rect) simp
  have "?D ! v ! u = (if contributing pts u v = [] then 0
                      else nan_to_num (float32 (Min (set (contributing pts u v)))))"
    if vu: "v < h" "u < w" for v u
  proof -
    have "Suc v * w \<le> h * w" using vu(1) by (intro mult_le_mono1) simp
    then have k: "v * w + u < h * w" using vu(2) by simp
    have L: "lands u v = (\<lambda>p. visible w h p \<and> flat_index w p = int v * int w + int u)"
      by (rule ext) (simp add: lands_iff [OF assms vu(2) vu(1)])
    have c: "map snd (filter (\<lambda>q. fst q = int (v * w + u)) ?ps) = contributing pts u v"
      unfolding contributing_def L
      by (simp add: filter_map comp_def case_prod_unfold)
    have pos: "\<forall>b\<in>set (contributing pts u v). 0 < b"
      by (auto simp: contributing_def lands_def)
    have "?D ! v ! u = clamp_depth (a' ! (v * w + u))"
      using a'(2) vu k by (simp add: reshape_nth)
    also have "\<dots> = clamp_depth (foldl ?g PInf (contributing pts u v))"
      using a'(3) k c by simp
    also have "\<dots> = (if contributing pts u v = [] then 0
                      else nan_to_num (float32 (Min (set (contributing pts u v)))))"
      using pos by (rule clamp_depth_foldl)
    finally show ?thesis .
  qed
  then show ?thesis using D R by blast
qed





text \<open>
  The size hypothesis is needed: at size (46341, 46341) the \<open>int32\<close> index of the point
  of pixel (46340, 46340) wraps to a negative index, which \<open>np.minimum.at\<close> counts from the
  end, so the depth is stored at pixel (9265, 0), on which no point lands.
\<close>

lemma Get_depth_map_from_index_wraps:
  "flat_index 46341 (46340, 46340, 1) = - 2147479016
   \<and> norm_index (46341 * 46341) (- 2147479016) = Some 9265
   \<and> (\<exists>D. Get_depth_map_from [(46340, 46340, 1)] (46341, 46341) = Inr D
          \<and> D ! 0 ! 9265 = 1 \<and> D ! 46340 ! 46340 = 0)
   \<and> contributing [(46340, 46340, 1)] 9265 0 = []
   \<and> contributing [(46340, 46340, 1)] 46340 46340 = [1]"
proof -
  let ?a = "(replicate (46341 * 46341) PInf)[9265 := Fin 1]"
  have i: "flat_index 46341 (46340, 46340, 1) = - 2147479016"
    by (simp add: flat_index_def np_round_def astype_int32_def wrap32_def)
  have n: "norm_index (46341 * 46341) (- 2147479016) = Some 9265"
    by (simp add: norm_index_def)
  have n': "norm_index 2147488281 (- 2147479016) = Some 9265"
    by (simp add: norm_index_def)
  have v: "visible 46341 46341 (46340, 46340, 1)" by (simp add: visible_def np_round_def)
  have "fold at_step (map (\<lambda>p. (flat_index 46341 p, snd (snd p)))
                        (filter (visible 46341 46341) [(46340, 46340, 1)]))
          (Inr (replicate (46341 * 46341) PInf)) = Inr ?a"
    using v by (simp add: i at_step_def n' fmin_def astype_float32_def float32_values)
  then have D: "Get_depth_map_from [(46340, 46340, 1)] (46341, 46341)
      = Inr (reshape 46341 46341 (map clamp_depth ?a))"
    by (simp add: Get_depth_map_from_pointwise bind_err_def)
  have l: "length (map clamp_depth ?a) = 46341 * 46341" by simp
  have "reshape 46341 46341 (map clamp_depth ?a) ! 0 ! 9265 = map clamp_depth ?a ! (0 * 46341 + 9265)"
    by (rule reshape_nth [OF l]) simp_all
  then have d0: "reshape 46341 46341 (map clamp_depth ?a) ! 0 ! 9265 = 1"
    by (simp add: clamp_depth_def nan_to_num_def)
  have "reshape 46341 46341 (map clamp_depth ?a) ! 46340 ! 46340
      = map clamp_depth ?a ! (46340 * 46341 + 46340)"
    by (rule reshape_nth [OF l]) simp_all
  then have d1: "reshape 46341 46341 (map clamp_depth ?a) ! 46340 ! 46340 = 0"
    by (simp add: clamp_depth_def nan_to_num_def)
  have c0: "contributing [(46340, 46340, 1)] 9265 0 = []"
    by (simp add: contributing_def lands_def np_round_def)
  have c1: "contributing [(46340, 46340, 1)] 46340 46340 = [1]"
    by (simp add: contributing_def lands_def np_round_def)
  show ?thesis using i n D d0 d1 c0 c1 by blast
qed


subsection \<open>Back-projection\<close>

lemma select_nth:
  "length m = length a \<Longrightarrow> select m a = map (\<lambda>i. a ! i) (filter (\<lambda>i. m ! i) [0..<length a])"
proof (induction m a rule: list_induct2)
  case Nil
  then show ?case by (simp add: select_def)
next
  case (Cons x xs y ys)
  have "filter (\<lambda>i. (x # xs) ! i) [0..<length (y # ys)]
      = (if x then [0] else []) @ map Suc (filter (\<lambda>i. xs ! i) [0..<length ys])"
    by (simp add: upt_conv_Cons [of 0] map_Suc_upt [symmetric] filter_map comp_def del: upt_Suc)
  then show ?case using Cons by (simp add: select_def comp_def)
qed

lemma rect_length_concat: "rect h w a \<Longrightarrow> length (concat a) = h * w"
  unfolding rect_def by (induction a arbitrary: h) (auto simp: list_all_iff)

lemma rect_concat_nth:
  "rect h w a \<Longrightarrow> i < h * w \<Longrightarrow> concat a ! i = a ! (i div w) ! (i mod w)"
proof (induction a arbitrary: h i)
  case Nil
  then show ?case by (simp add: rect_def)
next
  case (Cons r a)
  then obtain h' where h: "h = Suc h'" "length r = w" "rect h' w a" by (auto simp: rect_def)
  show ?case
  proof (cases "i < w")
    case True
    then show ?thesis using h by (simp add: nth_append)
  next
    case False
    then have "i - w < h' * w" using Cons.prems(2) h(1) by simp
    then have "concat a ! (i - w) = a ! ((i - w) div w) ! ((i - w) mod w)"
      using Cons.IH [OF h(3)] by simp
    moreover have "(i - w) mod w = i mod w" using False by (simp add: le_mod_geq)
    moreover have "0 < w" using Cons.prems(2) by (cases w) simp_all
    then have "i div w = Suc ((i - w) div w)" using False by (simp add: le_div_geq)
    ultimately show ?thesis using False h by (simp add: nth_append)
  qed
qed

lemma rect_map_length: "rect h w a \<Longrightarrow> map length a = replicate h w"
  unfolding rect_def by (induction a arbitrary: h) (auto simp: list_all_iff)

lemma rect_width: "rect h w a \<Longrightarrow> 0 < h \<Longrightarrow> (case a of [] \<Rightarrow> 0 | r # _ \<Rightarrow> length r) = w"
  by (cases a) (auto simp: rect_def)

lemma zip3_map: "zip (map f xs) (zip (map g xs) (map k xs)) = map (\<lambda>x. (f x, g x, k x)) xs"
  by (induction xs) simp_all

lemma Get_pts_from_flat:
  assumes "rect h w D" "rect h w m"
  shows "Get_pts_from D (Some m)
     = Inr (map (pixel_point D w) (filter (\<lambda>i. m ! (i div w) ! (i mod w)) [0..<h * w]))"
proof (cases "h = 0")
  case True
  then have "D = []" "m = []" using assms by (simp_all add: rect_def)
  then show ?thesis using True by (simp add: Get_pts_from_def bool_select_def select_def)
next
  case False
  then have h: "0 < h" by simp
  let ?yy = "map (\<lambda>y. replicate w y) [0..<h]" and ?xx = "replicate h [0..<w]"
  have len: "length D = h" using assms(1) by (simp add: rect_def)
  have w: "(case D of [] \<Rightarrow> 0 | r # _ \<Rightarrow> length r) = w" using assms(1) h by (rule rect_width)
  have shape: "map length m = map length D"
    using assms by (simp add: rect_map_length)
  have ryy: "rect h w ?yy" and rxx: "rect h w ?xx"
    by (simp_all add: rect_def list_all_iff)
  have lc: "length (concat m) = h * w" "length (concat D) = h * w"
    "length (concat ?yy) = h * w" "length (concat ?xx) = h * w"
    using assms ryy rxx by (simp_all only: rect_length_concat)
  let ?I = "filter (\<lambda>i. concat m ! i) [0..<h * w]"
  have I: "?I = filter (\<lambda>i. m ! (i div w) ! (i mod w)) [0..<h * w]"
    by (rule filter_cong) (simp_all add: rect_concat_nth [OF assms(2)])
  have sD: "bool_select m D = map (\<lambda>i. concat D ! i) ?I"
    and sy: "bool_select m ?yy = map (\<lambda>i. concat ?yy ! i) ?I"
    and sx: "bool_select m ?xx = map (\<lambda>i. concat ?xx ! i) ?I"
    unfolding bool_select_def using lc by (simp_all only: select_nth)
  have pt: "(\<lambda>(x, y, d). (real x * d, real y * d, d)) (concat ?xx ! i, concat ?yy ! i, concat D ! i)
        = pixel_point D w i" if "i \<in> set ?I" for i
  proof -
    have i: "i < h * w" using that by simp
    then have "0 < w" by (cases w) simp_all
    then have "i mod w < w" "i div w < h" using i by (simp_all add: less_mult_imp_div_less)
    then show ?thesis
      using i by (simp add: rect_concat_nth [OF assms(1)] rect_concat_nth [OF ryy]
          rect_concat_nth [OF rxx] pixel_point_def)
  qed
  have "Get_pts_from D (Some m)
      = Inr (map (\<lambda>(x, y, d). (real x * d, real y * d, d))
               (map (\<lambda>i. (concat ?xx ! i, concat ?yy ! i, concat D ! i)) ?I))"
    unfolding Get_pts_from_def Let_def len w using shape
    by (simp add: sx sy sD zip3_map)
  also have "\<dots> = Inr (map (pixel_point D w) ?I)"
    using pt by (simp add: comp_def)
  finally show ?thesis by (simp only: I)
qed

lemma Get_pts_from_default:
  assumes "rect h w D"
  shows "Get_pts_from D None = Inr (map (pixel_point D w) [0..<h * w])"
proof -
  have w: "replicate (length D) (replicate (case D of [] \<Rightarrow> 0 | r # _ \<Rightarrow> length r) True)
      = replicate h (replicate w True)"
  proof (cases "h = 0")
    case True
    then show ?thesis using assms by (simp add: rect_def)
  next
    case False
    then show ?thesis using assms rect_width [OF assms] by (simp add: rect_def)
  qed
  have r: "rect h w (replicate h (replicate w True))" by (simp add: rect_def list_all_iff)
  have "Get_pts_from D None = Get_pts_from D (Some (replicate h (replicate w True)))"
    unfolding Get_pts_from_def Let_def by (simp only: option.case w)
  also have "\<dots> = Inr (map (pixel_point D w)
        (filter (\<lambda>i. replicate h (replicate w True) ! (i div w) ! (i mod w)) [0..<h * w]))"
    using assms r by (rule Get_pts_from_flat)
  also have "filter (\<lambda>i. replicate h (replicate w True) ! (i div w) ! (i mod w)) [0..<h * w] = [0..<h * w]"
  proof (rule filter_True, rule ballI)
    fix i assume "i \<in> set [0..<h * w]"
    then have i: "i < h * w" by simp
    then have "0 < w" by (cases w) simp_all
    then have "i mod w < w" "i div w < h" using i by (simp_all add: less_mult_imp_div_less)
    then show "replicate h (replicate w True) ! (i div w) ! (i mod w)" by simp
  qed
  finally show ?thesis .
qed

lemma length_select: "length m = length a \<Longrightarrow> length (select m a) = length (filter id m)"
  by (induction m a rule: list_induct2) (simp_all add: select_def)

text \<open>
  C6. For a depth map of h rows and w columns and a mask of the same shape,
  \<open>Get_pts_from\<close> returns, in row-major order, the point (x * d, y * d, d) of every
  pixel the mask selects, one point per selected pixel (so in particular for every selected
  pixel of depth d > 0); without a mask every pixel is selected.
\<close>

theorem Get_pts_from_row_major:
  assumes "rect h w D" "rect h w m"
  shows "Get_pts_from D (Some m)
           = Inr (map (pixel_point D w) (filter (\<lambda>i. m ! (i div w) ! (i mod w)) [0..<h * w]))
         \<and> length (filter (\<lambda>i. m ! (i div w) ! (i mod w)) [0..<h * w]) = length (filter id (concat m))
         \<and> Get_pts_from D None = Inr (map (pixel_point D w) [0..<h * w])"
proof -
  have a: "Get_pts_from D (Some m)
           = Inr (map (pixel_point D w) (filter (\<lambda>i. m ! (i div w) ! (i mod w)) [0..<h * w]))"
    using assms by (rule Get_pts_from_flat)
  have lc: "length (concat m) = h * w" using assms(2) by (rule rect_length_concat)
  have "filter (\<lambda>i. m ! (i div w) ! (i mod w)) [0..<h * w] = filter (\<lambda>i. concat m ! i) [0..<h * w]"
    by (rule filter_cong) (simp_all add: rect_concat_nth [OF assms(2)])
  then have "length (filter (\<lambda>i. m ! (i div w) ! (i mod w)) [0..<h * w])
      = length (map (\<lambda>i. concat m ! i) (filter (\<lambda>i. concat m ! i) [0..<length (concat m)]))"
    by (simp add: lc)
  also have "\<dots> = length (select (concat m) (concat m))" by (simp only: select_nth)
  also have "\<dots> = length (filter id (concat m))" by (simp add: length_select)
  finally have b: "length (filter (\<lambda>i. m ! (i div w) ! (i mod w)) [0..<h * w]) = length (filter id (concat m))" .
  have c: "Get_pts_from D None = Inr (map (pixel_point D w) [0..<h * w])"
    using assms(1) by (rule Get_pts_from_default)
  show ?thesis using a b c by blast
qed

theorem Get_pts_from_row_major_witness:
  "rect 2 2 [[1, 2], [0, 4 :: real]] \<and> rect 2 2 [[True, False], [True, True]]
   \<and> Get_pts_from [[1, 2], [0, 4]] (Some [[True, False], [True, True]])
       = Inr (map (pixel_point [[1, 2], [0, 4]] 2)
                (filter (\<lambda>i. [[True, False], [True, True]] ! (i div 2) ! (i mod 2)) [0..<2 * 2]))
   \<and> length (filter (\<lambda>i. [[True, False], [True, True]] ! (i div 2) ! (i mod 2)) [0..<2 * 2])
       = length (filter id (concat [[True, False], [True, True]]))
   \<and> Get_pts_from [[1, 2], [0, 4]] None = Inr (map (pixel_point [[1, 2], [0, 4]] 2) [0..<2 * 2])"
proof -
  have d: "rect 2 2 [[1, 2], [0, 4 :: real]]" by (simp add: rect_def)
  have m: "rect 2 2 [[True, False], [True, True]]" by (simp add: rect_def)
  show ?thesis using d m Get_pts_from_row_major [OF d m] by blast
qed

subsection \<open>Projection round trip\<close>

lemma filter_eq_index: "k < n \<Longrightarrow> filter (\<lambda>i. i = k) [0..<n] = [k]"
proof (induction n)
  case 0
  then show ?case by simp
next
  case (Suc n)
  show ?case
  proof (cases "k < n")
    case True
    then show ?thesis using Suc.IH by simp
  next
    case False
    then have "k = n" using Suc.prems by simp
    then have "filter (\<lambda>i. i = k) [0..<n] = []" by (simp add: filter_empty_conv)
    then show ?thesis using \<open>k = n\<close> by simp
  qed
qed

lemma rect_eqI:
  assumes "rect h w A" "rect h w B" "\<And>v u. v < h \<Longrightarrow> u < w \<Longrightarrow> A ! v ! u = B ! v ! u"
  shows "A = B"
proof (rule nth_equalityI)
  show "length A = length B" using assms(1,2) by (simp add: rect_def)
next
  fix v assume "v < length A"
  then have v: "v < h" "v < length B" using assms(1,2) by (simp_all add: rect_def)
  have la: "length (A ! v) = w" using assms(1) v \<open>v < length A\<close> by (simp add: rect_def list_all_length)
  have lb: "length (B ! v) = w" using assms(2) v by (simp add: rect_def list_all_length)
  show "A ! v = B ! v"
    by (rule nth_equalityI) (simp_all add: la lb assms(3) v(1))
qed

lemma np_round_nat: "np_round (real n) = int n"
  using np_round_of_int [of "int n"] by simp

lemma lands_pixel_point:
  assumes "i < h * w" "u < w"
  shows "lands u v (pixel_point D w i) \<longleftrightarrow> i = v * w + u \<and> 0 < D ! v ! u"
proof -
  let ?d = "D ! (i div w) ! (i mod w)"
  have l: "lands u v (pixel_point D w i) \<longleftrightarrow> 0 < ?d \<and> i mod w = u \<and> i div w = v"
  proof (cases "0 < ?d")
    case True
    then show ?thesis by (simp add: lands_def pixel_point_def np_round_nat)
  next
    case False
    then show ?thesis by (simp add: lands_def pixel_point_def)
  qed
  have "i mod w = u \<and> i div w = v \<longleftrightarrow> i = v * w + u"
  proof
    assume "i mod w = u \<and> i div w = v"
    then show "i = v * w + u" by (metis div_mult_mod_eq)
  next
    assume "i = v * w + u"
    then show "i mod w = u \<and> i div w = v" using assms(2) by simp
  qed
  then show ?thesis using l assms(2) by auto
qed

text \<open>
  C3. For a depth map of h rows and w columns with non-negative entries (and a size that
  fits the \<open>int32\<close> index arithmetic), forward projection at size (w, h) of its
  back-projection is the map with every entry narrowed to \<open>float32\<close> (0 for an entry that
  overflows); it is the map itself when every entry is a \<open>float32\<close> value.
\<close>

theorem Get_depth_map_from_Get_pts_from:
  assumes "rect h w D" "fits32 w h" "\<forall>r\<in>set D. \<forall>d\<in>set r. 0 \<le> d"
  shows "bind_err (Get_pts_from D None) (\<lambda>pts. Get_depth_map_from pts (w, h))
           = Inr (map (map (\<lambda>d. nan_to_num (float32 d))) D)
         \<and> ((\<forall>r\<in>set D. \<forall>d\<in>set r. float32 d = Fin d)
              \<longrightarrow> bind_err (Get_pts_from D None) (\<lambda>pts. Get_depth_map_from pts (w, h)) = Inr D)"
proof -
  let ?pts = "map (pixel_point D w) [0..<h * w]"
  let ?N = "map (map (\<lambda>d. nan_to_num (float32 d))) D"
  have bp: "Get_pts_from D None = Inr ?pts" using assms(1) by (rule Get_pts_from_default)
  from Get_depth_map_from_char [OF assms(2), of ?pts] obtain D' where D':
    "Get_depth_map_from ?pts (w, h) = Inr D'" "rect h w D'"
    "\<forall>v<h. \<forall>u<w. D' ! v ! u = (if contributing ?pts u v = [] then 0
                                   else nan_to_num (float32 (Min (set (contributing ?pts u v)))))"
    by blast
  have N: "rect h w ?N" using assms(1) by (simp add: rect_def list_all_iff)
  have "D' ! v ! u = ?N ! v ! u" if vu: "v < h" "u < w" for v u
  proof -
    have "Suc v * w \<le> h * w" using vu(1) by (intro mult_le_mono1) simp
    then have k: "v * w + u < h * w" using vu(2) by simp
    have lv: "v < length D" using assms(1) vu(1) by (simp add: rect_def)
    have lu: "u < length (D ! v)" using assms(1) vu by (simp add: rect_def list_all_length)
    have "D ! v \<in> set D" using lv by simp
    moreover have "D ! v ! u \<in> set (D ! v)" using lu by simp
    ultimately have nn: "0 \<le> D ! v ! u" using assms(3) by blast
    have "filter (lands u v) ?pts
        = map (pixel_point D w) (filter (\<lambda>i. i = v * w + u \<and> 0 < D ! v ! u) [0..<h * w])"
      unfolding filter_map comp_def
      by (rule arg_cong [where f = "map (pixel_point D w)"], rule filter_cong)
         (simp_all add: lands_pixel_point [OF _ vu(2)])
    also have "\<dots> = (if 0 < D ! v ! u then [pixel_point D w (v * w + u)] else [])"
      using filter_eq_index [OF k] by simp
    finally have "contributing ?pts u v = (if 0 < D ! v ! u then [D ! v ! u] else [])"
      using vu(2) by (simp add: contributing_def pixel_point_def)
    then have "D' ! v ! u = nan_to_num (float32 (D ! v ! u))"
      using D'(3) vu nn by (auto simp: float32_values nan_to_num_def)
    then show ?thesis using lv lu by simp
  qed
  with D'(2) N have "D' = ?N" by (intro rect_eqI [of h w]) simp_all
  then have a: "bind_err (Get_pts_from D None) (\<lambda>pts. Get_depth_map_from pts (w, h)) = Inr ?N"
    using bp D'(1) by (simp add: bind_err_def)
  have "?N = D" if "\<forall>r\<in>set D. \<forall>d\<in>set r. float32 d = Fin d"
  proof -
    have "map (\<lambda>d. nan_to_num (float32 d)) r = r" if "r \<in> set D" for r
      using that \<open>\<forall>r\<in>set D. \<forall>d\<in>set r. float32 d = Fin d\<close>
      by (intro map_idI) (simp add: nan_to_num_def)
    then show ?thesis by (rule map_idI)
  qed
  then show ?thesis using a by simp
qed

theorem Get_depth_map_from_Get_pts_from_witness:
  "rect 2 3 [[1, 2, 0], [0, 4, 5 / 2 :: real]] \<and> fits32 3 2
   \<and> list_all (list_all (\<lambda>d. 0 \<le> d)) [[1, 2, 0], [0, 4, 5 / 2 :: real]]
   \<and> list_all (list_all (\<lambda>d. float32 d = Fin d)) [[1, 2, 0], [0, 4, 5 / 2 :: real]]
   \<and> bind_err (Get_pts_from [[1, 2, 0], [0, 4, 5 / 2]] None) (\<lambda>pts. Get_depth_map_from pts (3, 2))
       = Inr [[1, 2, 0], [0, 4, 5 / 2]]"
proof -
  have d: "rect 2 3 [[1, 2, 0], [0, 4, 5 / 2 :: real]]" by (simp add: rect_def)
  have f: "fits32 3 2" by (simp add: fits32_def)
  have n: "\<forall>r\<in>set [[1, 2, 0], [0, 4, 5 / 2 :: real]]. \<forall>d\<in>set r. 0 \<le> d" by simp
  have l: "list_all (list_all (\<lambda>d. 0 \<le> d)) [[1, 2, 0], [0, 4, 5 / 2 :: real]]" by simp
  have e: "\<forall>r\<in>set [[1, 2, 0], [0, 4, 5 / 2 :: real]]. \<forall>d\<in>set r. float32 d = Fin d"
    by (simp add: float32_values)
  have e': "list_all (list_all (\<lambda>d. float32 d = Fin d)) [[1, 2, 0], [0, 4, 5 / 2 :: real]]"
    by (simp add: float32_values)
  show ?thesis using d f l e e' Get_depth_map_from_Get_pts_from [OF d f n] by blast
qed

text \<open>
  C3, as the claim states it, fails on the one-pixel map of depth 1 / 10, which is not a
  \<open>float32\<close> value: the round trip returns the nearest \<open>float32\<close> value.
\<close>

theorem Get_depth_map_from_Get_pts_from_not_exact:
  "bind_err (Get_pts_from [[1 / 10]] None) (\<lambda>pts. Get_depth_map_from pts (1, 1))
     = Inr [[13421773 / 134217728]]
   \<and> [[13421773 / 134217728]] \<noteq> [[1 / 10 :: real]]"
  by (simp add: Get_pts_from_def bool_select_def Get_depth_map_from_def select_def np_round_def
      astype_int32_def wrap32_def minimum_at_def at_step_def norm_index_def fmin_def
      astype_float32_def float32_tenth bind_err_def reshape_def nan_to_num_def)

end
